theory Spec2Isabelle
  imports Main "HOL-Library.Word" "HOL-Library.Signed_Division"
begin

unbundle bit_operations_syntax

section \<open>The iSCSI logger: page packing and file roll-over\<close>

text \<open>
  A shallow embedding of \<^verbatim>\<open>src/iscsi_logger.c\<close>. The static variables of the C file are
  the fields of the record \<open>logger\<close>; every function takes the state and returns the new
  one. The kernel services the file calls (\<^verbatim>\<open>filp_open\<close>, \<^verbatim>\<open>pagecache_write_begin\<close>,
  \<^verbatim>\<open>pagecache_write_end\<close>, \<^verbatim>\<open>get_seconds\<close>) are not part of the file: their outcomes
  are read from an environment \<open>env\<close>, indexed by the number of calls made so far, and
  every call, every store into a page and every \<^verbatim>\<open>printk\<close> is appended to a trace.
  The netlink entry points (\<^verbatim>\<open>nl_input\<close>, \<^verbatim>\<open>nl_register_dir\<close>, \<^verbatim>\<open>nl_test\<close>) and the module
  set-up (\<^verbatim>\<open>iscsi_logger_init\<close>, \<^verbatim>\<open>iscsi_logger_exit\<close>) only store the configuration the
  logger starts from; they are not modelled beyond the initial state.
\<close>

subsection \<open>Machine types and constants\<close>

text \<open>
  \<^verbatim>\<open>size_t\<close>, \<^verbatim>\<open>pgoff_t\<close> (unsigned long) and \<^verbatim>\<open>off_t\<close> (long) are 64-bit values on
  x86-64; \<^verbatim>\<open>generation\<close> is a 32-bit \<^verbatim>\<open>int\<close>. Every comparison the file makes on
  \<^verbatim>\<open>offset\<close> has a \<^verbatim>\<open>size_t\<close> or \<^verbatim>\<open>PAGE_SIZE\<close> (unsigned long) on the other side, so C
  converts \<^verbatim>\<open>offset\<close> to unsigned there: the unsigned order of words is the one used.
\<close>

type_synonym size_t = "64 word"
type_synonym off_t = "64 word"
type_synonym pgoff_t = "64 word"
type_synonym uint8_t = "8 word"

text \<open>The kernel's page constants on x86: \<^verbatim>\<open>PAGE_SHIFT\<close> is 12, \<^verbatim>\<open>PAGE_SIZE\<close> is \<^verbatim>\<open>1UL << 12\<close>.\<close>

definition PAGE_SHIFT :: nat where
  "PAGE_SHIFT = 12"

definition PAGE_SIZE :: "64 word" where
  "PAGE_SIZE = push_bit PAGE_SHIFT 1"

text \<open>\<^verbatim>\<open>#define MSG_RND_UP(s) (((s)+0x3) & ~0x3)\<close>, on a \<^verbatim>\<open>size_t\<close>.\<close>

definition MSG_RND_UP :: "size_t \<Rightarrow> size_t" where
  "MSG_RND_UP s = (s + 3) AND NOT 3"

subsection \<open>Environment, trace and state\<close>

text \<open>
  A file is named by the number of the \<^verbatim>\<open>filp_open\<close> call that returned it, a page by the
  number of the \<^verbatim>\<open>pagecache_write_begin\<close> call that returned it.
\<close>

type_synonym file_id = nat
type_synonym page_id = nat

text \<open>
  The name \<^verbatim>\<open>sprintf\<close> builds with \<^verbatim>\<open>"%10lu.%03d"\<close>: the seconds and the value of
  \<^verbatim>\<open>generation++ % 1000\<close>. The path opened is the staging directory and that name.
\<close>

datatype log_name = LogName nat int

type_synonym path = "string \<times> log_name"

datatype message =
    CreatedLogFile path
  | FailedCreateLogFile path
  | WriteEndFailed int
  | WriteBeginFailed int

datatype event =
    MutexLock
  | MutexUnlock
  | FilpOpen path "file_id option"
  | FilpClose "file_id option"
  | WriteBegin file_id pgoff_t "64 word" int
  | WriteEnd file_id pgoff_t "64 word" page_id int
  | Kmap page_id
  | Kunmap page_id
  | StoreTerminator page_id off_t
  | StoreHeader page_id off_t size_t uint8_t
  | Printk message

record env =
  get_seconds :: "nat \<Rightarrow> nat"
  filp_open_ok :: "nat \<Rightarrow> bool"
  write_begin_status :: "nat \<Rightarrow> int"
  write_end_status :: "nat \<Rightarrow> int"

text \<open>
  The static variables of the file, the mutex, the numbers of kernel calls made so far
  and the trace (newest event first).
\<close>

record logger =
  locked :: bool
  staging_dir :: string
  max_file_size :: size_t
  generation :: "32 word"
  log_file :: "file_id option"
  log_page :: "page_id option"
  poffset :: pgoff_t
  offset :: off_t
  paddr :: "page_id option"
  fsdata :: "page_id option"
  log_file_name :: log_name
  n_open :: nat
  n_begin :: nat
  n_end :: nat
  trace :: "event list"

text \<open>
  What stops the program: \<^verbatim>\<open>BUG_ON\<close>, a dereference of a NULL \<^verbatim>\<open>log_file\<close>, and
  \<^verbatim>\<open>mutex_lock\<close> on the mutex the caller already holds (it never returns). The state at
  that point is kept with the fault.
\<close>

datatype fault = BUG | NullDeref | Blocked

type_synonym 'a result = "(fault \<times> logger) + 'a"

definition emit :: "event \<Rightarrow> logger \<Rightarrow> logger" where
  "emit e st = st\<lparr>trace := e # trace st\<rparr>"

text \<open>
  The statics as the C file initialises them, with the staging directory and the file
  size limit (in pages) that \<^verbatim>\<open>iscsi_logger_init\<close> or \<^verbatim>\<open>nl_register_dir\<close> stored. The
  name buffer is empty at that point; no function reads it before \<open>fetch_log_file\<close> has
  written it, and \<open>LogName 0 0\<close> stands for its content.
\<close>

definition init_logger :: "string \<Rightarrow> size_t \<Rightarrow> logger" where
  "init_logger dir n =
     \<lparr>locked = False, staging_dir = dir, max_file_size = n, generation = 0,
      log_file = None, log_page = None, poffset = 0, offset = 0, paddr = None,
      fsdata = None, log_file_name = LogName 0 0, n_open = 0, n_begin = 0, n_end = 0,
      trace = []\<rparr>"

subsection \<open>The functions of the file\<close>

text \<open>
  \<^verbatim>\<open>put_log_page\<close>: nothing without a page; otherwise the terminator is stored at
  \<^verbatim>\<open>offset\<close> when \<^verbatim>\<open>offset < PAGE_SIZE\<close>, the page is handed to \<^verbatim>\<open>pagecache_write_end\<close>
  (through \<^verbatim>\<open>log_file->f_mapping\<close>), a negative status is printed, and \<^verbatim>\<open>log_page\<close> and
  \<^verbatim>\<open>fsdata\<close> are set to NULL.
\<close>

definition put_log_page :: "env \<Rightarrow> logger \<Rightarrow> logger result" where
  "put_log_page E st =
     (case log_page st of
        None \<Rightarrow> Inr st
      | Some pg \<Rightarrow>
          let st1 = (if offset st < PAGE_SIZE
                     then emit (Kunmap pg)
                            (emit (StoreTerminator pg (offset st))
                               (emit (Kmap pg) (st\<lparr>paddr := Some pg\<rparr>)))
                     else st)
          in (case log_file st1 of
                None \<Rightarrow> Inl (NullDeref, st1)
              | Some f \<Rightarrow>
                  let status = write_end_status E (n_end st1);
                      st2 = emit (WriteEnd f (poffset st1) (push_bit PAGE_SHIFT (poffset st1))
                                    pg status)
                              (st1\<lparr>n_end := n_end st1 + 1\<rparr>);
                      st3 = (if status < 0 then emit (Printk (WriteEndFailed status)) st2
                             else st2)
                  in Inr (st3\<lparr>log_page := None, fsdata := None\<rparr>)))"

text \<open>\<^verbatim>\<open>iscsi_logger_roll\<close>: with a file, put the page, close the file, reset both offsets.\<close>

definition iscsi_logger_roll :: "env \<Rightarrow> logger \<Rightarrow> logger result" where
  "iscsi_logger_roll E st =
     (case log_file st of
        None \<Rightarrow> Inr st
      | Some _ \<Rightarrow>
          (case put_log_page E st of
             Inl e \<Rightarrow> Inl e
           | Inr st1 \<Rightarrow>
               Inr ((emit (FilpClose (log_file st1)) st1)
                      \<lparr>poffset := 0, offset := 0, log_file := None\<rparr>)))"

text \<open>
  \<^verbatim>\<open>fetch_log_file\<close>: an open file with \<^verbatim>\<open>poffset < max_file_size\<close> is kept; a full one
  is rolled. Then the name is built from \<^verbatim>\<open>generation++ % 1000\<close> (C's remainder, on the
  value before the increment), the file is opened, and the outcome is printed.
\<close>

definition fetch_log_file :: "env \<Rightarrow> logger \<Rightarrow> logger result" where
  "fetch_log_file E st =
     (if log_file st \<noteq> None \<and> poffset st < max_file_size st then Inr st
      else
        (case (if log_file st \<noteq> None then iscsi_logger_roll E st else Inr st) of
           Inl e \<Rightarrow> Inl e
         | Inr st1 \<Rightarrow>
             let nm = LogName (get_seconds E (n_open st1)) (sint (generation st1) smod 1000);
                 st2 = st1\<lparr>log_file_name := nm, generation := generation st1 + 1\<rparr>;
                 buf = (staging_dir st2, log_file_name st2);
                 f = (if filp_open_ok E (n_open st2) then Some (n_open st2) else None);
                 st3 = emit (FilpOpen buf f) (st2\<lparr>n_open := n_open st2 + 1, log_file := f\<rparr>)
             in Inr (emit (Printk (if log_file st3 \<noteq> None then CreatedLogFile buf
                                   else FailedCreateLogFile buf)) st3)))"

text \<open>
  \<^verbatim>\<open>fetch_log_page\<close>: a page in which the record fits is kept; a page in which it does
  not is put, \<^verbatim>\<open>offset\<close> is reset and \<^verbatim>\<open>poffset\<close> incremented. Then the file is fetched
  and, with a file, \<^verbatim>\<open>pagecache_write_begin\<close> is called at \<^verbatim>\<open>poffset << PAGE_SHIFT\<close>. The
  kernel stores the page and the file system data through the two pointers when it returns
  0, and leaves them as they are otherwise; a non-zero status is printed.
\<close>

definition fetch_log_page :: "env \<Rightarrow> size_t \<Rightarrow> logger \<Rightarrow> logger result" where
  "fetch_log_page E sz st =
     (if log_page st \<noteq> None \<and> offset st + sz \<le> PAGE_SIZE then Inr st
      else
        (case (if log_page st \<noteq> None
               then (case put_log_page E st of
                       Inl e \<Rightarrow> Inl e
                     | Inr s \<Rightarrow> Inr (s\<lparr>offset := 0, poffset := poffset s + 1\<rparr>))
               else Inr st) of
           Inl e \<Rightarrow> Inl e
         | Inr st1 \<Rightarrow>
             (case fetch_log_file E st1 of
                Inl e \<Rightarrow> Inl e
              | Inr st2 \<Rightarrow>
                  (case log_file st2 of
                     None \<Rightarrow> Inr st2
                   | Some f \<Rightarrow>
                       let status = write_begin_status E (n_begin st2);
                           st3 = emit (WriteBegin f (poffset st2)
                                         (push_bit PAGE_SHIFT (poffset st2)) status)
                                   (st2\<lparr>n_begin := n_begin st2 + 1,
                                        log_page := (if status = 0 then Some (n_begin st2)
                                                     else log_page st2),
                                        fsdata := (if status = 0 then Some (n_begin st2)
                                                   else fsdata st2)\<rparr>)
                       in Inr (if status \<noteq> 0 then emit (Printk (WriteBeginFailed status)) st3
                               else st3)))))"

text \<open>
  \<^verbatim>\<open>iscsi_logger_alloc\<close>: the size is rounded up, \<^verbatim>\<open>BUG_ON(size > PAGE_SIZE)\<close>, the page is
  fetched; without a page the result is NULL; otherwise the page is mapped, the message
  is at \<^verbatim>\<open>paddr + offset\<close>, \<^verbatim>\<open>offset\<close> is advanced, and the size and the type are stored in
  the message. The slot returned is the page and the offset of the message in it.
\<close>

definition iscsi_logger_alloc ::
  "env \<Rightarrow> size_t \<Rightarrow> uint8_t \<Rightarrow> logger \<Rightarrow> ((page_id \<times> off_t) option \<times> logger) result" where
  "iscsi_logger_alloc E size0 type st =
     (let sz = MSG_RND_UP size0 in
      if sz > PAGE_SIZE then Inl (BUG, st)
      else
        (case fetch_log_page E sz st of
           Inl e \<Rightarrow> Inl e
         | Inr st1 \<Rightarrow>
             (case log_page st1 of
                None \<Rightarrow> Inr (None, st1)
              | Some pg \<Rightarrow>
                  let st2 = emit (Kmap pg) (st1\<lparr>paddr := Some pg\<rparr>);
                      addr = offset st2;
                      st3 = st2\<lparr>offset := offset st2 + sz\<rparr>;
                      st4 = emit (StoreHeader pg addr sz type) st3
                  in Inr (Some (pg, addr), st4))))"

text \<open>\<^verbatim>\<open>iscsi_logger_commit\<close>: \<^verbatim>\<open>BUG_ON(!paddr)\<close>, then \<^verbatim>\<open>kunmap_atomic(paddr)\<close>.\<close>

definition iscsi_logger_commit :: "logger \<Rightarrow> logger result" where
  "iscsi_logger_commit st =
     (case paddr st of
        None \<Rightarrow> Inl (BUG, st)
      | Some a \<Rightarrow> Inr (emit (Kunmap a) st))"

text \<open>\<^verbatim>\<open>iscsi_logger_start\<close>: take the mutex, fetch the file.\<close>

definition iscsi_logger_start :: "env \<Rightarrow> logger \<Rightarrow> logger result" where
  "iscsi_logger_start E st =
     (if locked st then Inl (Blocked, st)
      else fetch_log_file E (emit MutexLock (st\<lparr>locked := True\<rparr>)))"

text \<open>\<^verbatim>\<open>iscsi_logger_stop\<close>: put the page, release the mutex.\<close>

definition iscsi_logger_stop :: "env \<Rightarrow> logger \<Rightarrow> logger result" where
  "iscsi_logger_stop E st =
     (case put_log_page E st of
        Inl e \<Rightarrow> Inl e
      | Inr st1 \<Rightarrow> Inr (emit MutexUnlock (st1\<lparr>locked := False\<rparr>)))"

subsection \<open>Sequences of calls\<close>

datatype op = Start | Alloc size_t uint8_t | Commit | Roll | Stop

fun step :: "env \<Rightarrow> op \<Rightarrow> logger \<Rightarrow> logger result" where
  "step E Start st = iscsi_logger_start E st"
| "step E (Alloc sz type) st =
     (case iscsi_logger_alloc E sz type st of
        Inl e \<Rightarrow> Inl e
      | Inr (_, st') \<Rightarrow> Inr st')"
| "step E Commit st = iscsi_logger_commit st"
| "step E Roll st = iscsi_logger_roll E st"
| "step E Stop st = iscsi_logger_stop E st"

fun run :: "env \<Rightarrow> op list \<Rightarrow> logger \<Rightarrow> logger result" where
  "run E [] st = Inr st"
| "run E (x # xs) st =
     (case step E x st of
        Inl e \<Rightarrow> Inl e
      | Inr st' \<Rightarrow> run E xs st')"

text \<open>The state a run ends in, whether it ended in a fault or not.\<close>

fun final :: "logger result \<Rightarrow> logger" where
  "final (Inl (_, st)) = st"
| "final (Inr st) = st"

text \<open>An environment in which every kernel call succeeds, at second \<open>t\<close>.\<close>

definition good_env :: "nat \<Rightarrow> env" where
  "good_env t =
     \<lparr>get_seconds = (\<lambda>_. t), filp_open_ok = (\<lambda>_. True),
      write_begin_status = (\<lambda>_. 0), write_end_status = (\<lambda>_. 0)\<rparr>"

text \<open>The fault a run ended in, if any.\<close>

fun fault_of :: "logger result \<Rightarrow> fault option" where
  "fault_of (Inl (e, _)) = Some e"
| "fault_of (Inr _) = None"

text \<open>
  A sample state: the logger with the defaults of \<^verbatim>\<open>iscsi_logger_init\<close> after a session
  was started and one 16-byte record of type 1 was allocated and committed.
\<close>

definition one_record :: logger where
  "one_record =
     final (run (good_env 0) [Start, Alloc 16 1, Commit] (init_logger ''/dev/shm'' 1024))"

subsection \<open>The parts of the fetch functions\<close>

text \<open>
  For the proofs the bodies of \<open>fetch_log_file\<close> and \<open>fetch_log_page\<close> are cut at their
  calls: \<open>create_log_file\<close> is \<open>fetch_log_file\<close> from its \<^verbatim>\<open>sprintf\<close> on,
  \<open>begin_log_page\<close> is the call of \<^verbatim>\<open>pagecache_write_begin\<close> with its \<^verbatim>\<open>printk\<close>, and
  \<open>fetch_tail\<close> is \<open>fetch_log_page\<close> from its call of \<open>fetch_log_file\<close> on. The lemmas
  \<open>fetch_log_file_unfold\<close> and \<open>fetch_log_page_unfold\<close> show that the functions are
  these parts put together.
\<close>

definition create_log_file :: "env \<Rightarrow> logger \<Rightarrow> logger" where
  "create_log_file E st1 =
     (let nm = LogName (get_seconds E (n_open st1)) (sint (generation st1) smod 1000);
          st2 = st1\<lparr>log_file_name := nm, generation := generation st1 + 1\<rparr>;
          buf = (staging_dir st2, log_file_name st2);
          f = (if filp_open_ok E (n_open st2) then Some (n_open st2) else None);
          st3 = emit (FilpOpen buf f) (st2\<lparr>n_open := n_open st2 + 1, log_file := f\<rparr>)
      in emit (Printk (if log_file st3 \<noteq> None then CreatedLogFile buf
                       else FailedCreateLogFile buf)) st3)"

definition begin_log_page :: "env \<Rightarrow> file_id \<Rightarrow> logger \<Rightarrow> logger" where
  "begin_log_page E f st2 =
     (let status = write_begin_status E (n_begin st2);
          st3 = emit (WriteBegin f (poffset st2) (push_bit PAGE_SHIFT (poffset st2)) status)
                  (st2\<lparr>n_begin := n_begin st2 + 1,
                       log_page := (if status = 0 then Some (n_begin st2) else log_page st2),
                       fsdata := (if status = 0 then Some (n_begin st2) else fsdata st2)\<rparr>)
      in if status \<noteq> 0 then emit (Printk (WriteBeginFailed status)) st3 else st3)"

definition fetch_tail :: "env \<Rightarrow> logger \<Rightarrow> logger result" where
  "fetch_tail E st1 =
     (case fetch_log_file E st1 of
        Inl e \<Rightarrow> Inl e
      | Inr st2 \<Rightarrow>
          (case log_file st2 of
             None \<Rightarrow> Inr st2
           | Some f \<Rightarrow> Inr (begin_log_page E f st2)))"

subsection \<open>Reading the trace\<close>

text \<open>The terminator stores of a trace, newest first: the page and the offset in it.\<close>

fun terminator_stores :: "event list \<Rightarrow> (page_id \<times> off_t) list" where
  "terminator_stores [] = []"
| "terminator_stores (StoreTerminator pg off # es) = (pg, off) # terminator_stores es"
| "terminator_stores (_ # es) = terminator_stores es"

text \<open>The message headers stored in page \<open>pg\<close>: offset, size and type, newest first.\<close>

fun page_records :: "page_id \<Rightarrow> event list \<Rightarrow> (off_t \<times> size_t \<times> uint8_t) list" where
  "page_records pg [] = []"
| "page_records pg (StoreHeader p off sz ty # es) =
     (if p = pg then (off, sz, ty) # page_records pg es else page_records pg es)"
| "page_records pg (_ # es) = page_records pg es"

text \<open>
  The page indices at which \<^verbatim>\<open>pagecache_write_begin\<close> was called on file \<open>f\<close>, newest
  first, and the pages of \<open>f\<close>: the indices without repetition.
\<close>

fun begun_pages :: "file_id \<Rightarrow> event list \<Rightarrow> pgoff_t list" where
  "begun_pages f [] = []"
| "begun_pages f (WriteBegin g i pos status # es) =
     (if g = f then i # begun_pages f es else begun_pages f es)"
| "begun_pages f (_ # es) = begun_pages f es"

definition file_pages :: "file_id \<Rightarrow> event list \<Rightarrow> pgoff_t list" where
  "file_pages f tr = remdups (begun_pages f tr)"

text \<open>
  A page of the page cache is a place in a file: the page returned by the call number
  \<open>pg\<close> of \<^verbatim>\<open>pagecache_write_begin\<close> is the page of the file and at the page index that
  call was made with. \<open>begin_count\<close> counts the calls in a trace, \<open>page_place\<close> finds the
  place of a page, and \<open>file_page_records\<close> reads the message headers stored at a place
  (newest first), through whichever call returned its page.
\<close>

fun begin_count :: "event list \<Rightarrow> nat" where
  "begin_count [] = 0"
| "begin_count (WriteBegin f i pos status # es) = Suc (begin_count es)"
| "begin_count (_ # es) = begin_count es"

fun page_place :: "page_id \<Rightarrow> event list \<Rightarrow> (file_id \<times> pgoff_t) option" where
  "page_place pg [] = None"
| "page_place pg (WriteBegin f i pos status # es) =
     (if begin_count es = pg then Some (f, i) else page_place pg es)"
| "page_place pg (_ # es) = page_place pg es"

fun file_page_records ::
  "file_id \<Rightarrow> pgoff_t \<Rightarrow> event list \<Rightarrow> (off_t \<times> size_t \<times> uint8_t) list" where
  "file_page_records f i [] = []"
| "file_page_records f i (StoreHeader pg off sz ty # es) =
     (if page_place pg es = Some (f, i) then (off, sz, ty) # file_page_records f i es
      else file_page_records f i es)"
| "file_page_records f i (_ # es) = file_page_records f i es"

text \<open>The calls on files in a trace: opens, closes and page requests.\<close>

fun file_calls :: "event list \<Rightarrow> event list" where
  "file_calls [] = []"
| "file_calls (FilpOpen p r # es) = FilpOpen p r # file_calls es"
| "file_calls (FilpClose f # es) = FilpClose f # file_calls es"
| "file_calls (WriteBegin f i pos status # es) = WriteBegin f i pos status # file_calls es"
| "file_calls (_ # es) = file_calls es"

text \<open>The atomic mappings still held: \<^verbatim>\<open>kmap_atomic\<close> calls minus \<^verbatim>\<open>kunmap_atomic\<close> calls.\<close>

fun mappings_held :: "event list \<Rightarrow> int" where
  "mappings_held [] = 0"
| "mappings_held (Kmap pg # es) = mappings_held es + 1"
| "mappings_held (Kunmap pg # es) = mappings_held es - 1"
| "mappings_held (_ # es) = mappings_held es"

subsection \<open>Invariants of the state\<close>

text \<open>
  A page belongs to an open file, and without a file both offsets are 0.
\<close>

definition consistent :: "logger \<Rightarrow> bool" where
  "consistent st \<longleftrightarrow>
     (log_page st \<noteq> None \<longrightarrow> log_file st \<noteq> None) \<and>
     (log_file st = None \<longrightarrow> poffset st = 0 \<and> offset st = 0)"

text \<open>
  Records (newest first) are packed up to an offset when the newest ends at that offset,
  each of the others ends where the next one starts, and the oldest starts at 0; without
  records the offset is 0.
\<close>

fun packed :: "(off_t \<times> size_t \<times> uint8_t) list \<Rightarrow> off_t \<Rightarrow> bool" where
  "packed [] off = (off = 0)"
| "packed ((start, sz, ty) # rs) off = (unat start + unat sz = unat off \<and> packed rs start)"

text \<open>
  The same with the sums as the program computes them (\<^verbatim>\<open>offset += size\<close> on a 64-bit
  value): records are chained up to an offset.
\<close>

fun chained :: "(off_t \<times> size_t \<times> uint8_t) list \<Rightarrow> off_t \<Rightarrow> bool" where
  "chained [] off = (off = 0)"
| "chained ((start, sz, ty) # rs) off = (start + sz = off \<and> chained rs start)"

text \<open>
  The page invariant: the offset is within the page, it is 0 when there is no page, the
  records stored in the current page are packed up to the offset, and no record has been
  stored in a page that \<^verbatim>\<open>pagecache_write_begin\<close> has not returned yet.
\<close>

definition page_inv :: "logger \<Rightarrow> bool" where
  "page_inv st \<longleftrightarrow>
     offset st \<le> PAGE_SIZE \<and>
     (log_page st = None \<longrightarrow> offset st = 0) \<and>
     (\<forall>pg. log_page st = Some pg \<longrightarrow>
        pg < n_begin st \<and> packed (page_records pg (trace st)) (offset st)) \<and>
     (\<forall>pg \<ge> n_begin st. page_records pg (trace st) = [])"

text \<open>The number of pages a file takes: \<^verbatim>\<open>max_file_size\<close>, and 1 when that is 0.\<close>

definition file_capacity :: "logger \<Rightarrow> nat" where
  "file_capacity st = max 1 (unat (max_file_size st))"

text \<open>
  The file invariant: every page requested from a file has an index below the capacity
  of the file, and so has the current page index while a file is open.
\<close>

definition pages_bounded :: "logger \<Rightarrow> bool" where
  "pages_bounded st \<longleftrightarrow> (\<forall>f. \<forall>i \<in> set (begun_pages f (trace st)). unat i < file_capacity st)"

definition file_inv :: "logger \<Rightarrow> bool" where
  "file_inv st \<longleftrightarrow> consistent st \<and> pages_bounded st \<and>
     (log_file st \<noteq> None \<longrightarrow> unat (poffset st) < file_capacity st)"

text \<open>What a call that requests no page and stores no record leaves as it is.\<close>

definition unchanged :: "logger \<Rightarrow> logger \<Rightarrow> bool" where
  "unchanged st st' \<longleftrightarrow>
     max_file_size st' = max_file_size st \<and> staging_dir st' = staging_dir st \<and>
     n_begin st' = n_begin st \<and>
     (\<forall>f. begun_pages f (trace st') = begun_pages f (trace st)) \<and>
     (\<forall>p. page_records p (trace st') = page_records p (trace st)) \<and>
     begin_count (trace st') = begin_count (trace st) \<and>
     (\<forall>p. page_place p (trace st') = page_place p (trace st)) \<and>
     (\<forall>f i. file_page_records f i (trace st') = file_page_records f i (trace st))"

text \<open>
  The invariant of the places: the pages counted are the calls in the trace; a file not
  opened yet and the pages after the current one in the open file hold no record; the
  current page is at the current index of the open file; every record fits a page; and
  the records at the current place are chained up to the offset.
\<close>

definition chain_inv :: "logger \<Rightarrow> bool" where
  "chain_inv st \<longleftrightarrow>
     n_begin st = begin_count (trace st) \<and>
     (\<forall>f \<ge> n_open st. \<forall>i. file_page_records f i (trace st) = []) \<and>
     (\<forall>f. log_file st = Some f \<longrightarrow>
        f < n_open st \<and>
        (\<forall>i. poffset st < i \<longrightarrow> file_page_records f i (trace st) = []) \<and>
        chained (file_page_records f (poffset st) (trace st)) (offset st)) \<and>
     (\<forall>pg. log_page st = Some pg \<longrightarrow>
        (\<exists>f. log_file st = Some f \<and> page_place pg (trace st) = Some (f, poffset st))) \<and>
     (\<forall>f i. \<forall>(start, sz, ty) \<in> set (file_page_records f i (trace st)). sz \<le> PAGE_SIZE)"

text \<open>
  A third sample state: a session with one record was stopped, and a second session
  has allocated and committed one more record.
\<close>

definition second_session :: logger where
  "second_session =
     final (run (good_env 0) [Start, Alloc 16 1, Commit, Stop, Start, Alloc 16 1, Commit]
              (init_logger ''/dev/shm'' 1024))"

text \<open>
  A second sample state: the file size limit is 2 pages and two records of a full page
  each were allocated and committed.
\<close>

definition two_pages :: logger where
  "two_pages =
     final (run (good_env 0) [Alloc 4096 1, Commit, Alloc 4096 1, Commit]
              (init_logger ''/dev/shm'' 2))"

section \<open>Rounding and the page constant\<close>

lemma PAGE_SIZE_eq: "PAGE_SIZE = 4096"
  by (simp add: PAGE_SIZE_def PAGE_SHIFT_def)

lemma and_not_3: "(x::64 word) AND NOT 3 = x - (x AND 3)"
  by (metis (no_types, lifting) bit.de_Morgan_conj bit.disj_cancel_left
    bit.disj_conj_distrib disjunctive_diff_eq_and_not word_and_max
    word_and_not word_not_not)

lemma and_3_mod: "(x::64 word) AND 3 = x mod 4"
proof -
  have "x AND mask 2 = x mod 2 ^ 2"
    by (simp only: take_bit_eq_mask [symmetric] take_bit_eq_mod)
  then show ?thesis by (simp add: mask_eq_exp_minus_1)
qed

lemma unat_and_not_3: "unat ((x::64 word) AND NOT 3) = unat x div 4 * 4"
proof -
  have le: "x mod 4 \<le> x"
    by (simp add: word_le_nat_alt unat_mod)
  have "unat (x - x mod 4) = unat x - unat (x mod 4)"
    using le by (rule unat_sub)
  also have "\<dots> = unat x - unat x mod 4"
    by (simp add: unat_mod)
  also have "\<dots> = unat x div 4 * 4"
    by (simp add: minus_mod_eq_div_mult)
  finally show ?thesis
    by (simp only: and_not_3 and_3_mod)
qed

text \<open>
  As long as \<open>s + 3\<close> does not wrap around, \<open>MSG_RND_UP s\<close> is \<open>s\<close> rounded up to the next
  multiple of 4, and it fits in a page exactly when \<open>s\<close> does.
\<close>

lemma MSG_RND_UP_unat:
  assumes "unat s + 3 < 2 ^ 64"
  shows "unat (MSG_RND_UP s) = (unat s + 3) div 4 * 4"
proof -
  have "unat (s + 3) = unat s + 3"
    using assms by (simp add: unat_word_ariths)
  then show ?thesis
    by (simp only: MSG_RND_UP_def unat_and_not_3)
qed

lemma MSG_RND_UP_le_iff:
  assumes "unat s + 3 < 2 ^ 64"
  shows "MSG_RND_UP s \<le> PAGE_SIZE \<longleftrightarrow> s \<le> PAGE_SIZE"
  using assms by (simp add: word_le_nat_alt MSG_RND_UP_unat PAGE_SIZE_eq) arith

text \<open>The three sizes next to \<^verbatim>\<open>SIZE_MAX\<close> wrap around in the addition and round to 0.\<close>

lemma MSG_RND_UP_wraps:
  "MSG_RND_UP (- 1) = 0" "MSG_RND_UP (- 2) = 0" "MSG_RND_UP (- 3) = 0"
  by (simp_all add: MSG_RND_UP_def)

section \<open>Records larger than a page\<close>

text \<open>
  Claim C7. When the size rounded by \<open>MSG_RND_UP\<close> exceeds \<open>PAGE_SIZE\<close>,
  \<open>iscsi_logger_alloc\<close> stops at its \<^verbatim>\<open>BUG_ON\<close> in the state it was called in: no page, file
  or offset has been touched and no slot is returned. This is so for every size above
  \<open>PAGE_SIZE\<close> whose rounding does not wrap around, and for \<open>PAGE_SIZE + 1\<close> in particular.
\<close>

theorem alloc_oversize_is_fatal:
  "(PAGE_SIZE < MSG_RND_UP sz \<longrightarrow> iscsi_logger_alloc E sz ty st = Inl (BUG, st))
   \<and> (PAGE_SIZE < sz \<and> unat sz + 3 < 2 ^ 64 \<longrightarrow> iscsi_logger_alloc E sz ty st = Inl (BUG, st))
   \<and> iscsi_logger_alloc E (PAGE_SIZE + 1) ty st = Inl (BUG, st)"
proof -
  have bug: "iscsi_logger_alloc E s ty st = Inl (BUG, st)" if "PAGE_SIZE < MSG_RND_UP s" for s
    using that by (simp add: iscsi_logger_alloc_def Let_def)
  have "PAGE_SIZE < MSG_RND_UP sz" if "PAGE_SIZE < sz" "unat sz + 3 < 2 ^ 64"
    using that MSG_RND_UP_le_iff [of sz] by (simp add: not_le [symmetric])
  moreover have "PAGE_SIZE < MSG_RND_UP (PAGE_SIZE + 1)"
    by (simp add: PAGE_SIZE_eq MSG_RND_UP_def)
  ultimately show ?thesis
    using bug by blast
qed

theorem alloc_oversize_is_fatal_witness:
  "PAGE_SIZE < MSG_RND_UP 5000 \<and> PAGE_SIZE < (5000 :: 64 word)
   \<and> unat (5000 :: 64 word) + 3 < 2 ^ 64
   \<and> iscsi_logger_alloc (good_env 0) 5000 1 (init_logger ''/dev/shm'' 1024)
        = Inl (BUG, init_logger ''/dev/shm'' 1024)"
  using alloc_oversize_is_fatal [of 5000 "good_env 0" 1 "init_logger ''/dev/shm'' 1024"]
  by (simp add: PAGE_SIZE_eq MSG_RND_UP_def)

section \<open>Unfolding the functions\<close>

lemmas logger_defs =
  put_log_page_def iscsi_logger_roll_def fetch_log_file_def fetch_log_page_def
  iscsi_logger_alloc_def iscsi_logger_commit_def iscsi_logger_start_def
  iscsi_logger_stop_def emit_def

lemmas sample_defs =
  good_env_def init_logger_def one_record_def two_pages_def PAGE_SIZE_def PAGE_SHIFT_def
  MSG_RND_UP_def

lemma one_record_eq:
  "one_record =
     \<lparr>locked = True, staging_dir = ''/dev/shm'', max_file_size = 1024, generation = 1,
      log_file = Some 0, log_page = Some 0, poffset = 0, offset = 16, paddr = Some 0,
      fsdata = Some 0, log_file_name = LogName 0 0, n_open = 1, n_begin = 1, n_end = 0,
      trace = [Kunmap 0, StoreHeader 0 0 16 1, Kmap 0, WriteBegin 0 0 0 0,
               Printk (CreatedLogFile (''/dev/shm'', LogName 0 0)),
               FilpOpen (''/dev/shm'', LogName 0 0) (Some 0), MutexLock]\<rparr>"
  by (simp add: logger_defs sample_defs Let_def signed_modulo_int_def)

lemma two_pages_eq:
  "two_pages =
     \<lparr>locked = False, staging_dir = ''/dev/shm'', max_file_size = 2, generation = 1,
      log_file = Some 0, log_page = Some 1, poffset = 1, offset = 4096, paddr = Some 1,
      fsdata = Some 1, log_file_name = LogName 0 0, n_open = 1, n_begin = 2, n_end = 1,
      trace = [Kunmap 1, StoreHeader 1 0 4096 1, Kmap 1, WriteBegin 0 1 4096 0,
               WriteEnd 0 0 0 0 0, Kunmap 0, StoreHeader 0 0 4096 1, Kmap 0,
               WriteBegin 0 0 0 0, Printk (CreatedLogFile (''/dev/shm'', LogName 0 0)),
               FilpOpen (''/dev/shm'', LogName 0 0) (Some 0)]\<rparr>"
  by (simp add: logger_defs sample_defs Let_def signed_modulo_int_def)

section \<open>A flush that fails\<close>

text \<open>
  Claim C9. When \<^verbatim>\<open>pagecache_write_end\<close> returns a negative status, \<open>put_log_page\<close> prints
  the status and goes on: \<open>log_page\<close> and \<open>fsdata\<close> are reset, no fault is raised, and the
  state is the one a successful flush leaves, the trace apart. The callers of
  \<open>put_log_page\<close> return nothing about the flush, and an allocation, a roll and a stop in
  that state do not fault.
\<close>

theorem flush_failure_is_swallowed:
  assumes "log_page st = Some pg" and "log_file st = Some f"
    and "write_end_status E (n_end st) < 0"
  shows "\<exists>st' st''.
           put_log_page E st = Inr st' \<and> log_page st' = None \<and> fsdata st' = None
         \<and> hd (trace st') = Printk (WriteEndFailed (write_end_status E (n_end st)))
         \<and> put_log_page (E\<lparr>write_end_status := (write_end_status E)(n_end st := 0)\<rparr>) st
             = Inr st''
         \<and> st'\<lparr>trace := []\<rparr> = st''\<lparr>trace := []\<rparr>
         \<and> (\<forall>sz ty. MSG_RND_UP sz \<le> PAGE_SIZE \<longrightarrow>
               (\<exists>r. iscsi_logger_alloc E sz ty st = Inr r))
         \<and> (\<exists>s. iscsi_logger_roll E st = Inr s) \<and> (\<exists>s. iscsi_logger_stop E st = Inr s)"
  using assms by (auto simp add: logger_defs Let_def split: option.splits)

theorem flush_failure_is_swallowed_witness:
  "log_page one_record = Some 0 \<and> log_file one_record = Some 0
   \<and> write_end_status ((good_env 0)\<lparr>write_end_status := (\<lambda>_. - 5)\<rparr>) (n_end one_record) < 0
   \<and> MSG_RND_UP 4090 \<le> PAGE_SIZE
   \<and> (\<exists>st'. put_log_page ((good_env 0)\<lparr>write_end_status := (\<lambda>_. - 5)\<rparr>) one_record = Inr st'
         \<and> log_page st' = None \<and> hd (trace st') = Printk (WriteEndFailed (- 5)))
   \<and> (\<exists>r. iscsi_logger_alloc ((good_env 0)\<lparr>write_end_status := (\<lambda>_. - 5)\<rparr>) 4090 1 one_record
             = Inr r)"
proof -
  let ?E = "(good_env 0)\<lparr>write_end_status := (\<lambda>_. - 5)\<rparr>"
  have h: "log_page one_record = Some 0" "log_file one_record = Some 0"
    "write_end_status ?E (n_end one_record) < 0"
    by (simp_all add: one_record_eq)
  have r: "MSG_RND_UP 4090 \<le> PAGE_SIZE"
    by (simp add: MSG_RND_UP_def PAGE_SIZE_eq)
  have s: "write_end_status ?E (n_end one_record) = - 5"
    by simp
  show ?thesis
    using flush_failure_is_swallowed [OF h] h r unfolding s by blast
qed

section \<open>The generation counter\<close>

lemma smod_nonneg: "0 \<le> k \<Longrightarrow> (k::int) smod 1000 = k mod 1000"
  by (simp add: signed_modulo_int_def sgn_if)

text \<open>What \<open>fetch_log_file\<close> does when it goes on to create a file.\<close>

lemma fetch_log_file_create:
  assumes "log_file st = None \<or> \<not> poffset st < max_file_size st"
  shows "\<exists>st'. fetch_log_file E st = Inr st'
          \<and> generation st' = generation st + 1
          \<and> n_open st' = n_open st + 1
          \<and> staging_dir st' = staging_dir st
          \<and> log_file st' = (if filp_open_ok E (n_open st) then Some (n_open st) else None)
          \<and> log_file_name st' =
              LogName (get_seconds E (n_open st)) (sint (generation st) smod 1000)
          \<and> FilpOpen (staging_dir st, log_file_name st') (log_file st') \<in> set (trace st')"
  using assms
  by (auto simp add: logger_defs Let_def split: option.splits)

text \<open>
  Claim C10. Whenever \<open>fetch_log_file\<close> goes on to create a file (there is no file, or the
  file is full), the counter is incremented by one whether the open succeeds or not, and
  the number in the name is C's remainder of the counter before the increment by 1000
  (its value modulo 1000 while the counter is not negative). After a failed open the
  next attempt names its file with the next number.
\<close>

theorem fetch_log_file_generation:
  assumes "log_file st = None \<or> \<not> poffset st < max_file_size st"
  shows "\<exists>st'. fetch_log_file E st = Inr st'
          \<and> generation st' = generation st + 1
          \<and> n_open st' = n_open st + 1
          \<and> log_file st' = (if filp_open_ok E (n_open st) then Some (n_open st) else None)
          \<and> log_file_name st' =
              LogName (get_seconds E (n_open st)) (sint (generation st) smod 1000)
          \<and> FilpOpen (staging_dir st, log_file_name st') (log_file st') \<in> set (trace st')
          \<and> (0 \<le> sint (generation st) \<longrightarrow>
                sint (generation st) smod 1000 = sint (generation st) mod 1000)
          \<and> (\<not> filp_open_ok E (n_open st) \<longrightarrow>
                (\<exists>st''. fetch_log_file E st' = Inr st''
                   \<and> generation st'' = generation st + 2
                   \<and> log_file_name st'' =
                       LogName (get_seconds E (n_open st + 1))
                         (sint (generation st + 1) smod 1000)))"
proof -
  from fetch_log_file_create [OF assms, of E] obtain st' where
    1: "fetch_log_file E st = Inr st'" "generation st' = generation st + 1"
       "n_open st' = n_open st + 1"
       "log_file st' = (if filp_open_ok E (n_open st) then Some (n_open st) else None)"
       "log_file_name st' =
          LogName (get_seconds E (n_open st)) (sint (generation st) smod 1000)"
       "FilpOpen (staging_dir st, log_file_name st') (log_file st') \<in> set (trace st')"
    by blast
  have 2: "\<exists>st''. fetch_log_file E st' = Inr st''
                   \<and> generation st'' = generation st + 2
                   \<and> log_file_name st'' =
                       LogName (get_seconds E (n_open st + 1))
                         (sint (generation st + 1) smod 1000)"
    if "\<not> filp_open_ok E (n_open st)"
  proof -
    from that 1 have "log_file st' = None" by simp
    then have "log_file st' = None \<or> \<not> poffset st' < max_file_size st'" by simp
    from fetch_log_file_create [OF this, of E] 1 show ?thesis by auto
  qed
  from 1 2 show ?thesis
    using smod_nonneg by blast
qed

theorem fetch_log_file_generation_witness:
  "log_file (init_logger ''/dev/shm'' 1024) = None
   \<and> 0 \<le> sint (generation (init_logger ''/dev/shm'' 1024))
   \<and> \<not> filp_open_ok ((good_env 7)\<lparr>filp_open_ok := (\<lambda>k. k \<noteq> 0)\<rparr>)
         (n_open (init_logger ''/dev/shm'' 1024))
   \<and> (\<exists>st'. fetch_log_file ((good_env 7)\<lparr>filp_open_ok := (\<lambda>k. k \<noteq> 0)\<rparr>)
               (init_logger ''/dev/shm'' 1024) = Inr st'
         \<and> generation st' = 1 \<and> log_file st' = None \<and> log_file_name st' = LogName 7 0
         \<and> (\<exists>st''. fetch_log_file ((good_env 7)\<lparr>filp_open_ok := (\<lambda>k. k \<noteq> 0)\<rparr>) st' = Inr st''
               \<and> generation st'' = 2 \<and> log_file_name st'' = LogName 7 1))"
  using fetch_log_file_generation
    [of "init_logger ''/dev/shm'' 1024" "(good_env 7)\<lparr>filp_open_ok := (\<lambda>k. k \<noteq> 0)\<rparr>"]
  by (simp add: sample_defs Let_def signed_modulo_int_def) blast

section \<open>Commit without an allocation\<close>

text \<open>
  Claim C6. \<open>iscsi_logger_commit\<close> tests \<open>paddr\<close>, which nothing resets after the unmap.
  Before any page was ever mapped the commit stops at its \<^verbatim>\<open>BUG_ON\<close>; a second commit
  after an allocation and its commit passes the test and unmaps the page a second time.
\<close>

theorem commit_twice_is_not_detected:
  "fault_of (run (good_env 0) [Start, Commit] (init_logger ''/dev/shm'' 1024)) = Some BUG
   \<and> fault_of (run (good_env 0) [Start, Alloc 16 1, Commit, Commit]
                 (init_logger ''/dev/shm'' 1024)) = None
   \<and> take 2 (trace (final (run (good_env 0) [Start, Alloc 16 1, Commit, Commit]
                             (init_logger ''/dev/shm'' 1024)))) = [Kunmap 0, Kunmap 0]
   \<and> mappings_held (trace (final (run (good_env 0) [Start, Alloc 16 1, Commit, Commit]
                                     (init_logger ''/dev/shm'' 1024)))) = - 1"
  by (simp add: logger_defs sample_defs Let_def)

section \<open>Stopping a session\<close>

text \<open>
  Claim C5, as the code has it. After a session with one committed record,
  \<open>iscsi_logger_stop\<close> has released the mutex and put the page, and the file is still open:
  no \<^verbatim>\<open>filp_close\<close> was called.
\<close>

theorem stop_leaves_file_open:
  "fault_of (iscsi_logger_stop (good_env 0) one_record) = None
   \<and> log_file (final (iscsi_logger_stop (good_env 0) one_record)) = Some 0
   \<and> FilpClose (Some 0) \<notin> set (trace (final (iscsi_logger_stop (good_env 0) one_record)))
   \<and> \<not> locked (final (iscsi_logger_stop (good_env 0) one_record))"
  by (simp add: logger_defs one_record_eq Let_def PAGE_SIZE_eq)

text \<open>
  Claim C5, amended. In every state whose page, if any, belongs to an open file,
  \<open>iscsi_logger_stop\<close> seals and flushes the open page (the terminator when the offset is
  below \<open>PAGE_SIZE\<close>, then \<^verbatim>\<open>pagecache_write_end\<close>), whether or not the page was ever rolled,
  and releases the mutex. It makes no call on the file: the file stays open and both
  offsets stay as they are.
\<close>

theorem stop_flushes_and_unlocks:
  assumes "log_page st \<noteq> None \<longrightarrow> log_file st \<noteq> None"
  shows "\<exists>st'. iscsi_logger_stop E st = Inr st'
          \<and> \<not> locked st' \<and> hd (trace st') = MutexUnlock
          \<and> log_page st' = None
          \<and> log_file st' = log_file st \<and> poffset st' = poffset st \<and> offset st' = offset st
          \<and> file_calls (trace st') = file_calls (trace st)
          \<and> (\<forall>pg f. log_page st = Some pg \<and> log_file st = Some f \<longrightarrow>
                WriteEnd f (poffset st) (push_bit PAGE_SHIFT (poffset st)) pg
                   (write_end_status E (n_end st)) \<in> set (trace st')
                \<and> terminator_stores (trace st') =
                    (if offset st < PAGE_SIZE then [(pg, offset st)] else [])
                      @ terminator_stores (trace st))"
  using assms by (auto simp add: logger_defs Let_def split: option.splits)

theorem stop_flushes_and_unlocks_witness:
  "log_page one_record = Some 0 \<and> log_file one_record = Some 0 \<and> locked one_record
   \<and> (\<exists>st'. iscsi_logger_stop (good_env 0) one_record = Inr st' \<and> \<not> locked st'
         \<and> log_page st' = None \<and> log_file st' = Some 0
         \<and> WriteEnd 0 0 0 0 0 \<in> set (trace st')
         \<and> terminator_stores (trace st') = [(0, 16)])"
  using stop_flushes_and_unlocks [of one_record "good_env 0"]
  by (simp add: one_record_eq good_env_def PAGE_SIZE_eq) blast

section \<open>The offset after a session was stopped\<close>

text \<open>
  Claim C1. \<open>iscsi_logger_stop\<close> puts the page and leaves \<open>offset\<close> as it is, and
  \<open>fetch_log_page\<close> tests the fit only when there is a page. A session that ends at offset
  4000 and a next session that allocates 200 bytes: the record is stored at offset 4000 of
  the page, the offset becomes 4200, above \<open>PAGE_SIZE\<close>, and the next allocation seals that
  page at offset 4200, with no terminator.
\<close>

theorem record_past_page_end_after_restart:
  "fault_of (run (good_env 0) [Start, Alloc 4000 1, Commit, Stop, Start, Alloc 200 1, Commit]
               (init_logger ''/dev/shm'' 1024)) = None
   \<and> offset (final (run (good_env 0)
                [Start, Alloc 4000 1, Commit, Stop, Start, Alloc 200 1, Commit]
                (init_logger ''/dev/shm'' 1024))) = 4200
   \<and> PAGE_SIZE < 4200
   \<and> page_records 1 (trace (final (run (good_env 0)
                [Start, Alloc 4000 1, Commit, Stop, Start, Alloc 200 1, Commit]
                (init_logger ''/dev/shm'' 1024)))) = [(4000, 200, 1)]
   \<and> take 2 (trace (final (run (good_env 0)
                [Start, Alloc 4000 1, Commit, Stop, Start, Alloc 200 1, Commit, Alloc 8 1]
                (init_logger ''/dev/shm'' 1024))))
       = [StoreHeader 2 0 8 1, Kmap 2]
   \<and> terminator_stores (trace (final (run (good_env 0)
                [Start, Alloc 4000 1, Commit, Stop, Start, Alloc 200 1, Commit, Alloc 8 1]
                (init_logger ''/dev/shm'' 1024)))) = [(0, 4000)]
   \<and> WriteEnd 0 0 0 1 0 \<in> set (trace (final (run (good_env 0)
                [Start, Alloc 4000 1, Commit, Stop, Start, Alloc 200 1, Commit, Alloc 8 1]
                (init_logger ''/dev/shm'' 1024))))"
  by (simp add: logger_defs sample_defs Let_def)

section \<open>What each function does to the state\<close>

lemma unchanged_refl [simp]: "unchanged st st"
  by (simp add: unchanged_def)

lemma unchanged_trans: "unchanged a b \<Longrightarrow> unchanged b c \<Longrightarrow> unchanged a c"
  by (simp add: unchanged_def)

lemma put_log_page_effect:
  assumes "log_page st \<noteq> None \<longrightarrow> log_file st \<noteq> None"
  shows "\<exists>st'. put_log_page E st = Inr st' \<and> log_page st' = None
          \<and> log_file st' = log_file st \<and> poffset st' = poffset st \<and> offset st' = offset st
          \<and> n_open st' = n_open st \<and> generation st' = generation st \<and> locked st' = locked st
          \<and> unchanged st st'
          \<and> file_calls (trace st') = file_calls (trace st)"
  using assms
  by (auto simp add: put_log_page_def emit_def Let_def unchanged_def split: option.splits)

lemma iscsi_logger_roll_none:
  "log_file st = None \<Longrightarrow> iscsi_logger_roll E st = Inr st"
  by (simp add: iscsi_logger_roll_def)

lemma iscsi_logger_roll_effect:
  assumes "log_file st = Some f"
  shows "\<exists>st'. iscsi_logger_roll E st = Inr st' \<and> log_page st' = None \<and> log_file st' = None
          \<and> poffset st' = 0 \<and> offset st' = 0
          \<and> n_open st' = n_open st \<and> generation st' = generation st \<and> locked st' = locked st
          \<and> unchanged st st'
          \<and> file_calls (trace st') = FilpClose (Some f) # file_calls (trace st)"
proof -
  have "log_page st \<noteq> None \<longrightarrow> log_file st \<noteq> None"
    using assms by simp
  from put_log_page_effect [OF this, of E] obtain s where
    "put_log_page E st = Inr s" "log_page s = None" "log_file s = log_file st"
    "n_open s = n_open st" "generation s = generation st" "locked s = locked st"
    "unchanged st s" "file_calls (trace s) = file_calls (trace st)"
    by blast
  with assms show ?thesis
    by (simp add: iscsi_logger_roll_def emit_def unchanged_def)
qed

lemma fetch_log_file_unfold:
  "fetch_log_file E st =
     (if log_file st \<noteq> None \<and> poffset st < max_file_size st then Inr st
      else
        (case (if log_file st \<noteq> None then iscsi_logger_roll E st else Inr st) of
           Inl e \<Rightarrow> Inl e
         | Inr st1 \<Rightarrow> Inr (create_log_file E st1)))"
  by (simp add: fetch_log_file_def create_log_file_def Let_def split: sum.splits)

lemma create_log_file_effect:
  assumes "log_page s = None" and "poffset s = 0" and "offset s = 0"
    and "unchanged st s" and "n_open s = n_open st" and "generation s = generation st"
    and "locked s = locked st" and "file_calls (trace s) = cs @ file_calls (trace st)"
  shows "consistent (create_log_file E s) \<and> unchanged st (create_log_file E s)
   \<and> locked (create_log_file E s) = locked st
   \<and> log_page (create_log_file E s) = None
   \<and> offset (create_log_file E s) = 0 \<and> poffset (create_log_file E s) = 0
   \<and> n_open (create_log_file E s) = n_open st + 1
   \<and> generation (create_log_file E s) = generation st + 1
   \<and> log_file (create_log_file E s) = (if filp_open_ok E (n_open st) then Some (n_open st) else None)
   \<and> log_file_name (create_log_file E s) =
        LogName (get_seconds E (n_open st)) (sint (generation st) smod 1000)
   \<and> file_calls (trace (create_log_file E s)) =
        FilpOpen (staging_dir st, log_file_name (create_log_file E s)) (log_file (create_log_file E s))
          # cs @ file_calls (trace st)"
  using assms
  by (simp add: create_log_file_def emit_def Let_def unchanged_def consistent_def)

lemma fetch_log_file_keep:
  assumes "log_file st \<noteq> None" and "poffset st < max_file_size st"
  shows "fetch_log_file E st = Inr st" and "unat (poffset st) < file_capacity st"
  using assms by (simp_all add: fetch_log_file_unfold file_capacity_def word_less_nat_alt)

lemma fetch_log_file_new:
  assumes "consistent st" and "\<not> (log_file st \<noteq> None \<and> poffset st < max_file_size st)"
  shows "\<exists>st'. fetch_log_file E st = Inr st' \<and> consistent st' \<and> unchanged st st'
          \<and> locked st' = locked st
          \<and> log_page st' = None \<and> offset st' = 0 \<and> poffset st' = 0
          \<and> n_open st' = n_open st + 1 \<and> generation st' = generation st + 1
          \<and> log_file st' = (if filp_open_ok E (n_open st) then Some (n_open st) else None)
          \<and> log_file_name st' =
               LogName (get_seconds E (n_open st)) (sint (generation st) smod 1000)
          \<and> file_calls (trace st') =
               FilpOpen (staging_dir st, log_file_name st') (log_file st')
                 # (case log_file st of None \<Rightarrow> [] | Some f \<Rightarrow> [FilpClose (Some f)])
                 @ file_calls (trace st)"
proof (cases "log_file st")
  case None
  then have e: "fetch_log_file E st = Inr (create_log_file E st)"
    by (simp add: fetch_log_file_unfold)
  have "log_page st = None" "poffset st = 0" "offset st = 0"
    using None assms(1) by (auto simp add: consistent_def)
  from create_log_file_effect [OF this unchanged_refl refl refl refl, of "[]" E]
  show ?thesis
    unfolding e using None by simp
next
  case (Some f)
  from iscsi_logger_roll_effect [OF Some, of E] obtain s where
    r: "iscsi_logger_roll E st = Inr s" and
    s: "log_page s = None" "poffset s = 0" "offset s = 0" "unchanged st s"
       "n_open s = n_open st" "generation s = generation st" "locked s = locked st"
       "file_calls (trace s) = [FilpClose (Some f)] @ file_calls (trace st)"
    by auto
  have e: "fetch_log_file E st = Inr (create_log_file E s)"
    using Some assms(2) r by (simp add: fetch_log_file_unfold)
  from create_log_file_effect [OF s, of E]
  show ?thesis
    unfolding e using Some by simp
qed

lemma fetch_log_page_unfold:
  "fetch_log_page E sz st =
     (if log_page st \<noteq> None \<and> offset st + sz \<le> PAGE_SIZE then Inr st
      else
        (case (if log_page st \<noteq> None
               then (case put_log_page E st of
                       Inl e \<Rightarrow> Inl e
                     | Inr s \<Rightarrow> Inr (s\<lparr>offset := 0, poffset := poffset s + 1\<rparr>))
               else Inr st) of
           Inl e \<Rightarrow> Inl e
         | Inr st1 \<Rightarrow> fetch_tail E st1))"
  by (simp add: fetch_log_page_def fetch_tail_def begin_log_page_def Let_def
      split: sum.splits option.splits)

lemma begin_log_page_effect:
  assumes "log_file s = Some f"
  shows "consistent (begin_log_page E f s) = consistent s
   \<and> max_file_size (begin_log_page E f s) = max_file_size s
   \<and> staging_dir (begin_log_page E f s) = staging_dir s
   \<and> locked (begin_log_page E f s) = locked s
   \<and> n_open (begin_log_page E f s) = n_open s
   \<and> generation (begin_log_page E f s) = generation s
   \<and> log_file_name (begin_log_page E f s) = log_file_name s
   \<and> log_file (begin_log_page E f s) = Some f
   \<and> offset (begin_log_page E f s) = offset s
   \<and> poffset (begin_log_page E f s) = poffset s
   \<and> n_begin (begin_log_page E f s) = n_begin s + 1
   \<and> log_page (begin_log_page E f s) =
        (if write_begin_status E (n_begin s) = 0 then Some (n_begin s) else log_page s)
   \<and> (\<forall>p. page_records p (trace (begin_log_page E f s)) = page_records p (trace s))
   \<and> (\<forall>g. begun_pages g (trace (begin_log_page E f s)) =
          (if g = f then [poffset s] else []) @ begun_pages g (trace s))
   \<and> file_calls (trace (begin_log_page E f s)) =
        WriteBegin f (poffset s) (push_bit PAGE_SHIFT (poffset s)) (write_begin_status E (n_begin s))
          # file_calls (trace s)"
  using assms
  by (simp add: begin_log_page_def emit_def Let_def consistent_def)


lemma unchanged_fields:
  "unchanged a b \<Longrightarrow> max_file_size b = max_file_size a \<and> staging_dir b = staging_dir a
     \<and> n_begin b = n_begin a
     \<and> (\<forall>f. begun_pages f (trace b) = begun_pages f (trace a))
     \<and> (\<forall>p. page_records p (trace b) = page_records p (trace a))"
  by (simp add: unchanged_def)

lemma file_capacity_cong:
  "max_file_size b = max_file_size a \<Longrightarrow> file_capacity b = file_capacity a"
  by (simp add: file_capacity_def)

lemma file_capacity_pos [simp]: "0 < file_capacity st"
  by (simp add: file_capacity_def)

lemma fetch_tail_keep:
  assumes "consistent s1" and "log_page s1 = None"
    and "log_file s1 = Some f" and "poffset s1 < max_file_size s1"
  shows "\<exists>st'. fetch_tail E s1 = Inr st' \<and> consistent st'
     \<and> max_file_size st' = max_file_size s1 \<and> staging_dir st' = staging_dir s1
     \<and> locked st' = locked s1
     \<and> (\<forall>p. page_records p (trace st') = page_records p (trace s1))
     \<and> unat (poffset st') < file_capacity s1
     \<and> (\<forall>g. begun_pages g (trace st') =
            (if g = f then [poffset st'] else []) @ begun_pages g (trace s1))
     \<and> offset st' = offset s1 \<and> poffset st' = poffset s1 \<and> log_file st' = Some f
     \<and> n_open st' = n_open s1 \<and> generation st' = generation s1
     \<and> file_calls (trace st') =
          WriteBegin f (poffset s1) (push_bit PAGE_SHIFT (poffset s1))
            (write_begin_status E (n_begin s1)) # file_calls (trace s1)
     \<and> log_page st' = (if write_begin_status E (n_begin s1) = 0 then Some (n_begin s1) else None)
     \<and> n_begin st' = n_begin s1 + 1"
proof -
  have k: "fetch_log_file E s1 = Inr s1" "unat (poffset s1) < file_capacity s1"
    using assms(3,4) by (simp_all add: fetch_log_file_keep)
  have e: "fetch_tail E s1 = Inr (begin_log_page E f s1)"
    using k(1) assms(3) by (simp add: fetch_tail_def)
  from begin_log_page_effect [OF assms(3), of E] k(2) assms(1,2)
  show ?thesis
    unfolding e by simp
qed

lemma fetch_tail_new:
  assumes "consistent s1" and "log_page s1 = None"
    and "\<not> (log_file s1 \<noteq> None \<and> poffset s1 < max_file_size s1)"
  shows "\<exists>st'. fetch_tail E s1 = Inr st' \<and> consistent st'
     \<and> max_file_size st' = max_file_size s1 \<and> staging_dir st' = staging_dir s1
     \<and> locked st' = locked s1
     \<and> (\<forall>p. page_records p (trace st') = page_records p (trace s1))
     \<and> (\<forall>g. begun_pages g (trace st') =
            (if log_file st' = Some g then [0] else []) @ begun_pages g (trace s1))
     \<and> offset st' = 0 \<and> poffset st' = 0
     \<and> log_file st' = (if filp_open_ok E (n_open s1) then Some (n_open s1) else None)
     \<and> n_open st' = n_open s1 + 1 \<and> generation st' = generation s1 + 1
     \<and> log_file_name st' =
          LogName (get_seconds E (n_open s1)) (sint (generation s1) smod 1000)
     \<and> file_calls (trace st') =
          (if filp_open_ok E (n_open s1)
           then [WriteBegin (n_open s1) 0 0 (write_begin_status E (n_begin s1))] else [])
          @ FilpOpen (staging_dir s1, log_file_name st') (log_file st')
          # (case log_file s1 of None \<Rightarrow> [] | Some f \<Rightarrow> [FilpClose (Some f)])
          @ file_calls (trace s1)
     \<and> log_page st' =
          (if filp_open_ok E (n_open s1) \<and> write_begin_status E (n_begin s1) = 0
           then Some (n_begin s1) else None)
     \<and> n_begin st' = (if filp_open_ok E (n_open s1) then n_begin s1 + 1 else n_begin s1)"
proof -
  from fetch_log_file_new [OF assms(1,3), of E] obtain s2 where
    f: "fetch_log_file E s1 = Inr s2" and
    s2: "consistent s2" "locked s2 = locked s1" "log_page s2 = None" "offset s2 = 0"
      "poffset s2 = 0" "n_open s2 = n_open s1 + 1" "generation s2 = generation s1 + 1"
      "log_file s2 = (if filp_open_ok E (n_open s1) then Some (n_open s1) else None)"
      "log_file_name s2 = LogName (get_seconds E (n_open s1)) (sint (generation s1) smod 1000)"
      "file_calls (trace s2) =
         FilpOpen (staging_dir s1, log_file_name s2) (log_file s2)
           # (case log_file s1 of None \<Rightarrow> [] | Some f \<Rightarrow> [FilpClose (Some f)])
           @ file_calls (trace s1)" and
    u: "unchanged s1 s2"
    by auto
  note uf = unchanged_fields [OF u]
  show ?thesis
  proof (cases "filp_open_ok E (n_open s1)")
    case False
    with s2 have n: "log_file s2 = None" by simp
    then have e: "fetch_tail E s1 = Inr s2"
      using f by (simp add: fetch_tail_def)
    show ?thesis
      unfolding e using False s2 uf n by simp
  next
    case True
    with s2 have n: "log_file s2 = Some (n_open s1)" by simp
    then have e: "fetch_tail E s1 = Inr (begin_log_page E (n_open s1) s2)"
      using f by (simp add: fetch_tail_def)
    from begin_log_page_effect [OF n, of E]
    show ?thesis
      unfolding e using True s2 uf n by simp
  qed
qed


lemma fetch_tail_effect:
  assumes "consistent s1" and "log_page s1 = None"
  shows "\<exists>st'. fetch_tail E s1 = Inr st' \<and> consistent st'
     \<and> max_file_size st' = max_file_size s1 \<and> staging_dir st' = staging_dir s1
     \<and> locked st' = locked s1
     \<and> (\<forall>p. page_records p (trace st') = page_records p (trace s1))
     \<and> (pages_bounded s1 \<longrightarrow> pages_bounded st')
     \<and> (log_file st' \<noteq> None \<longrightarrow> unat (poffset st') < file_capacity st')
     \<and> (offset st' = offset s1 \<or> offset st' = 0)
     \<and> (log_page st' = None \<and> n_begin s1 \<le> n_begin st' \<and> n_begin st' \<le> n_begin s1 + 1
          \<or> log_page st' = Some (n_begin s1) \<and> n_begin st' = n_begin s1 + 1)
     \<and> (filp_open_ok E (n_open s1) \<and> write_begin_status E (n_begin s1) = 0
          \<longrightarrow> log_page st' = Some (n_begin s1))"
proof (cases "log_file s1 \<noteq> None \<and> poffset s1 < max_file_size s1")
  case True
  then obtain f where f: "log_file s1 = Some f" by auto
  from fetch_tail_keep [OF assms f, of E] True obtain st' where
    e: "fetch_tail E s1 = Inr st'" and
    p: "consistent st'" "max_file_size st' = max_file_size s1" "staging_dir st' = staging_dir s1"
      "locked st' = locked s1" "\<forall>p. page_records p (trace st') = page_records p (trace s1)"
      "unat (poffset st') < file_capacity s1"
      "\<forall>g. begun_pages g (trace st') =
            (if g = f then [poffset st'] else []) @ begun_pages g (trace s1)"
      "offset st' = offset s1"
      "log_page st' = (if write_begin_status E (n_begin s1) = 0 then Some (n_begin s1) else None)"
      "n_begin st' = n_begin s1 + 1"
    by auto
  have c: "file_capacity st' = file_capacity s1"
    using p(2) by (rule file_capacity_cong)
  have b: "pages_bounded st'" if "pages_bounded s1"
    using that p(6,7) c by (auto simp add: pages_bounded_def)
  show ?thesis
    unfolding e using p(1-6,8-10) b c by simp
next
  case False
  from fetch_tail_new [OF assms False, of E] obtain st' where
    e: "fetch_tail E s1 = Inr st'" and
    p: "consistent st'" "max_file_size st' = max_file_size s1" "staging_dir st' = staging_dir s1"
      "locked st' = locked s1" "\<forall>p. page_records p (trace st') = page_records p (trace s1)"
      "\<forall>g. begun_pages g (trace st') =
            (if log_file st' = Some g then [0] else []) @ begun_pages g (trace s1)"
      "offset st' = 0" "poffset st' = 0"
      "log_page st' =
          (if filp_open_ok E (n_open s1) \<and> write_begin_status E (n_begin s1) = 0
           then Some (n_begin s1) else None)"
      "n_begin st' = (if filp_open_ok E (n_open s1) then n_begin s1 + 1 else n_begin s1)"
    by auto
  have c: "file_capacity st' = file_capacity s1"
    using p(2) by (rule file_capacity_cong)
  have b: "pages_bounded st'" if "pages_bounded s1"
    using that p(6) c by (auto simp add: pages_bounded_def)
  show ?thesis
    unfolding e using p(1-5,7-10) b by simp
qed


lemma fetch_log_page_fit:
  "log_page st \<noteq> None \<Longrightarrow> offset st + sz \<le> PAGE_SIZE \<Longrightarrow> fetch_log_page E sz st = Inr st"
  by (simp add: fetch_log_page_unfold)

lemma pages_bounded_cong:
  assumes "unchanged st s" and "trace s1 = trace s" and "max_file_size s1 = max_file_size s"
  shows "pages_bounded s1 = pages_bounded st"
  using assms by (simp add: pages_bounded_def unchanged_def file_capacity_def)

lemma fetch_log_page_next:
  assumes "consistent st" and "\<not> (log_page st \<noteq> None \<and> offset st + sz \<le> PAGE_SIZE)"
  shows "\<exists>st'. fetch_log_page E sz st = Inr st' \<and> consistent st'
     \<and> max_file_size st' = max_file_size st \<and> staging_dir st' = staging_dir st
     \<and> locked st' = locked st
     \<and> (\<forall>p. page_records p (trace st') = page_records p (trace st))
     \<and> (pages_bounded st \<longrightarrow> file_inv st')
     \<and> (log_page st \<noteq> None \<or> offset st = 0 \<longrightarrow> offset st' = 0)
     \<and> (log_page st' = None \<and> n_begin st \<le> n_begin st' \<and> n_begin st' \<le> n_begin st + 1
          \<or> log_page st' = Some (n_begin st) \<and> n_begin st' = n_begin st + 1)
     \<and> (filp_open_ok E (n_open st) \<and> write_begin_status E (n_begin st) = 0
          \<longrightarrow> log_page st' = Some (n_begin st))"
proof -
  obtain s1 where
    e: "fetch_log_page E sz st = fetch_tail E s1" and
    s1: "consistent s1" "log_page s1 = None" and
    o: "log_page st \<noteq> None \<or> offset st = 0 \<longrightarrow> offset s1 = 0" and
    q: "n_open s1 = n_open st" "locked s1 = locked st" "max_file_size s1 = max_file_size st"
      "staging_dir s1 = staging_dir st" "n_begin s1 = n_begin st"
      "\<forall>p. page_records p (trace s1) = page_records p (trace st)" and
    b: "pages_bounded s1 = pages_bounded st"
  proof (cases "log_page st")
    case None
    then have "fetch_log_page E sz st = fetch_tail E st"
      by (simp add: fetch_log_page_unfold)
    with None assms(1) that [of st] show ?thesis by simp
  next
    case (Some pg)
    have c: "log_page st \<noteq> None \<longrightarrow> log_file st \<noteq> None"
      using assms(1) by (simp add: consistent_def)
    with Some obtain f where f: "log_file st = Some f" by auto
    from put_log_page_effect [OF c, of E] obtain s where
      p: "put_log_page E st = Inr s" and
      s: "log_page s = None" "log_file s = log_file st" "n_open s = n_open st"
         "locked s = locked st" and
      u: "unchanged st s"
      by blast
    let ?s1 = "s\<lparr>offset := 0, poffset := poffset s + 1\<rparr>"
    have 1: "fetch_log_page E sz st = fetch_tail E ?s1"
      using Some assms(2) p by (simp add: fetch_log_page_unfold)
    have 2: "consistent ?s1" "log_page ?s1 = None" "offset ?s1 = 0" "n_open ?s1 = n_open st"
      "locked ?s1 = locked st"
      using s f by (simp_all add: consistent_def)
    note uf = unchanged_fields [OF u]
    have 3: "max_file_size ?s1 = max_file_size st" "staging_dir ?s1 = staging_dir st"
      "n_begin ?s1 = n_begin st"
      "\<forall>p. page_records p (trace ?s1) = page_records p (trace st)"
      using uf by simp_all
    have 4: "pages_bounded ?s1 = pages_bounded st"
      using u by (rule pages_bounded_cong) simp_all
    from 1 2 3 4 that [of ?s1] show ?thesis by simp
  qed
  from fetch_tail_effect [OF s1, of E] obtain st' where
    t: "fetch_tail E s1 = Inr st'" "consistent st'"
      "max_file_size st' = max_file_size s1" "staging_dir st' = staging_dir s1"
      "locked st' = locked s1"
      "\<forall>p. page_records p (trace st') = page_records p (trace s1)"
      "pages_bounded s1 \<longrightarrow> pages_bounded st'"
      "log_file st' \<noteq> None \<longrightarrow> unat (poffset st') < file_capacity st'"
      "offset st' = offset s1 \<or> offset st' = 0"
      "log_page st' = None \<and> n_begin s1 \<le> n_begin st' \<and> n_begin st' \<le> n_begin s1 + 1
          \<or> log_page st' = Some (n_begin s1) \<and> n_begin st' = n_begin s1 + 1"
      "filp_open_ok E (n_open s1) \<and> write_begin_status E (n_begin s1) = 0
          \<longrightarrow> log_page st' = Some (n_begin s1)"
    by blast
  have "fetch_log_page E sz st = Inr st'"
    using e t(1) by simp
  moreover have "pages_bounded st \<longrightarrow> file_inv st'"
    using t(2,7,8) b by (simp add: file_inv_def)
  moreover have "log_page st \<noteq> None \<or> offset st = 0 \<longrightarrow> offset st' = 0"
    using o t(9) by auto
  moreover have "max_file_size st' = max_file_size st" "staging_dir st' = staging_dir st"
    "locked st' = locked st" "\<forall>p. page_records p (trace st') = page_records p (trace st)"
    using t(3-6) q by simp_all
  moreover have "log_page st' = None \<and> n_begin st \<le> n_begin st' \<and> n_begin st' \<le> n_begin st + 1
          \<or> log_page st' = Some (n_begin st) \<and> n_begin st' = n_begin st + 1"
    using t(10) q(5) by simp
  moreover have "filp_open_ok E (n_open st) \<and> write_begin_status E (n_begin st) = 0
          \<longrightarrow> log_page st' = Some (n_begin st)"
    using t(11) q(1,5) by simp
  ultimately show ?thesis
    using t(2) by blast
qed

lemma iscsi_logger_alloc_unfold:
  "iscsi_logger_alloc E size0 ty st =
     (if MSG_RND_UP size0 > PAGE_SIZE then Inl (BUG, st)
      else
        (case fetch_log_page E (MSG_RND_UP size0) st of
           Inl e \<Rightarrow> Inl e
         | Inr st1 \<Rightarrow>
             (case log_page st1 of
                None \<Rightarrow> Inr (None, st1)
              | Some pg \<Rightarrow>
                  Inr (Some (pg, offset st1),
                       st1\<lparr>paddr := Some pg, offset := offset st1 + MSG_RND_UP size0,
                           trace := StoreHeader pg (offset st1) (MSG_RND_UP size0) ty
                                      # Kmap pg # trace st1\<rparr>))))"
  by (simp add: iscsi_logger_alloc_def emit_def Let_def split: sum.splits option.splits)

section \<open>Allocation without a file\<close>

text \<open>
  Claim C8, as the code has it. With no file open, the open succeeds and
  \<^verbatim>\<open>pagecache_write_begin\<close> fails with -12: the allocation returns NULL although a file is
  open, so a failed open is not the only way an allocation fails, and a successful open
  is not enough for the allocation to succeed.
\<close>

theorem alloc_fails_with_file_open:
  "map_sum fst fst
     (iscsi_logger_alloc ((good_env 0)\<lparr>write_begin_status := (\<lambda>_. - 12)\<rparr>) 16 1
        (init_logger ''/dev/shm'' 1024)) = Inr None
   \<and> log_file (final (run ((good_env 0)\<lparr>write_begin_status := (\<lambda>_. - 12)\<rparr>) [Alloc 16 1]
                         (init_logger ''/dev/shm'' 1024))) = Some 0
   \<and> file_calls (trace (final (run ((good_env 0)\<lparr>write_begin_status := (\<lambda>_. - 12)\<rparr>)
                                   [Alloc 16 1] (init_logger ''/dev/shm'' 1024))))
       = [WriteBegin 0 0 0 (- 12), FilpOpen (''/dev/shm'', LogName 0 0) (Some 0)]"
  by (simp add: logger_defs sample_defs Let_def signed_modulo_int_def)

text \<open>
  Claim C8, amended. With no file and no page, an allocation of a size that fits a page
  attempts the open. When the open fails it returns NULL and leaves the logger without a
  file, with every variable as it was but the generation, the file name and the trace, so
  the next allocation attempts the open again. When the open succeeds the allocation
  returns a slot if \<^verbatim>\<open>pagecache_write_begin\<close> returns 0, and NULL, with the file open, if
  it does not.
\<close>

theorem alloc_without_file:
  assumes "log_file st = None" and "log_page st = None" and "MSG_RND_UP sz \<le> PAGE_SIZE"
  shows "\<exists>st'. iscsi_logger_alloc E sz ty st
            = Inr (if filp_open_ok E (n_open st) \<and> write_begin_status E (n_begin st) = 0
                   then Some (n_begin st, offset st) else None, st')
          \<and> n_open st' = n_open st + 1
          \<and> FilpOpen (staging_dir st, log_file_name st') (log_file st') \<in> set (trace st')
          \<and> log_file st' = (if filp_open_ok E (n_open st) then Some (n_open st) else None)
          \<and> log_page st' = (if filp_open_ok E (n_open st) \<and> write_begin_status E (n_begin st) = 0
                            then Some (n_begin st) else None)
          \<and> (\<not> filp_open_ok E (n_open st) \<longrightarrow>
               generation st' = generation st + 1
               \<and> poffset st' = poffset st \<and> offset st' = offset st
               \<and> paddr st' = paddr st \<and> fsdata st' = fsdata st
               \<and> n_begin st' = n_begin st \<and> n_end st' = n_end st
               \<and> max_file_size st' = max_file_size st \<and> staging_dir st' = staging_dir st
               \<and> locked st' = locked st
               \<and> trace st' = [Printk (FailedCreateLogFile (staging_dir st, log_file_name st')),
                               FilpOpen (staging_dir st, log_file_name st') None] @ trace st)"
  using assms
  by (auto simp add: logger_defs Let_def not_less [symmetric] split: option.splits)

theorem alloc_without_file_witness:
  "log_file (init_logger ''/dev/shm'' 1024) = None
   \<and> log_page (init_logger ''/dev/shm'' 1024) = None
   \<and> MSG_RND_UP 16 \<le> PAGE_SIZE
   \<and> \<not> filp_open_ok ((good_env 0)\<lparr>filp_open_ok := (\<lambda>k. k \<noteq> 0)\<rparr>)
         (n_open (init_logger ''/dev/shm'' 1024))
   \<and> (\<exists>st'. iscsi_logger_alloc ((good_env 0)\<lparr>filp_open_ok := (\<lambda>k. k \<noteq> 0)\<rparr>) 16 1
               (init_logger ''/dev/shm'' 1024) = Inr (None, st')
         \<and> log_file st' = None \<and> n_open st' = 1
         \<and> (\<exists>slot st''. iscsi_logger_alloc ((good_env 0)\<lparr>filp_open_ok := (\<lambda>k. k \<noteq> 0)\<rparr>) 16 1 st'
                           = Inr (Some slot, st'')))"
proof -
  let ?E = "(good_env 0)\<lparr>filp_open_ok := (\<lambda>k. k \<noteq> 0)\<rparr>"
  let ?st = "init_logger ''/dev/shm'' 1024"
  have h: "log_file ?st = None" "log_page ?st = None" "MSG_RND_UP 16 \<le> PAGE_SIZE"
    by (simp_all add: sample_defs)
  have f: "\<not> filp_open_ok ?E (n_open ?st)" "n_open ?st = 0"
    by (simp_all add: sample_defs)
  from alloc_without_file [OF h, of ?E 1] f obtain st' where
    1: "iscsi_logger_alloc ?E 16 1 ?st = Inr (None, st')" "n_open st' = 1"
       "log_file st' = None" "log_page st' = None"
    by auto
  have g: "filp_open_ok ?E (n_open st')" "write_begin_status ?E (n_begin st') = 0"
    using 1(2) by (simp_all add: good_env_def)
  from alloc_without_file [OF 1(3,4) h(3), of ?E 1] g obtain st'' where
    "iscsi_logger_alloc ?E 16 1 st' = Inr (Some (n_begin st', offset st'), st'')"
    by auto
  with 1 h f show ?thesis by blast
qed

section \<open>Pages per file\<close>

lemma fetch_log_page_file_inv:
  assumes "file_inv st"
  shows "\<exists>st'. fetch_log_page E sz st = Inr st' \<and> file_inv st'
           \<and> max_file_size st' = max_file_size st"
proof (cases "log_page st \<noteq> None \<and> offset st + sz \<le> PAGE_SIZE")
  case True
  with assms show ?thesis by (simp add: fetch_log_page_fit)
next
  case False
  have "consistent st" "pages_bounded st"
    using assms by (simp_all add: file_inv_def)
  from fetch_log_page_next [OF this(1) False, of E] this(2)
  show ?thesis by blast
qed

lemma file_inv_trace:
  assumes "file_inv st1" and "log_page st1 \<noteq> None"
    and "\<forall>f. begun_pages f tr = begun_pages f (trace st1)"
  shows "file_inv (st1\<lparr>paddr := a, offset := b, trace := tr\<rparr>)"
  using assms by (auto simp add: file_inv_def consistent_def pages_bounded_def file_capacity_def)

lemma alloc_file_inv:
  assumes "file_inv st"
  shows "file_inv (final (step E (Alloc sz ty) st))
         \<and> max_file_size (final (step E (Alloc sz ty) st)) = max_file_size st"
proof (cases "MSG_RND_UP sz > PAGE_SIZE")
  case True
  with assms show ?thesis by (simp add: iscsi_logger_alloc_unfold)
next
  case False
  from fetch_log_page_file_inv [OF assms, of E "MSG_RND_UP sz"] obtain st1 where
    1: "fetch_log_page E (MSG_RND_UP sz) st = Inr st1" "file_inv st1"
       "max_file_size st1 = max_file_size st"
    by blast
  show ?thesis
  proof (cases "log_page st1")
    case None
    with False 1 show ?thesis by (simp add: iscsi_logger_alloc_unfold)
  next
    case (Some pg)
    have "file_inv (st1\<lparr>paddr := Some pg, offset := offset st1 + MSG_RND_UP sz,
                           trace := StoreHeader pg (offset st1) (MSG_RND_UP sz) ty
                                      # Kmap pg # trace st1\<rparr>)"
      using 1(2) Some by (intro file_inv_trace) simp_all
    with False 1 Some show ?thesis by (simp add: iscsi_logger_alloc_unfold)
  qed
qed

lemma commit_file_inv:
  assumes "file_inv st"
  shows "file_inv (final (step E Commit st))
         \<and> max_file_size (final (step E Commit st)) = max_file_size st"
  using assms
  by (cases "paddr st")
    (simp_all add: iscsi_logger_commit_def emit_def file_inv_def consistent_def
      pages_bounded_def file_capacity_def)

lemma roll_file_inv:
  assumes "file_inv st"
  shows "file_inv (final (step E Roll st))
         \<and> max_file_size (final (step E Roll st)) = max_file_size st"
proof (cases "log_file st")
  case None
  with assms show ?thesis by (simp add: iscsi_logger_roll_none)
next
  case (Some f)
  from iscsi_logger_roll_effect [OF Some, of E] obtain s where
    r: "iscsi_logger_roll E st = Inr s" "log_page s = None" "log_file s = None"
       "poffset s = 0" "offset s = 0" "unchanged st s"
    by blast
  note uf = unchanged_fields [OF r(6)]
  have "pages_bounded s = pages_bounded st"
    using r(6) by (rule pages_bounded_cong) simp_all
  with r uf assms show ?thesis
    by (simp add: file_inv_def consistent_def)
qed

lemma stop_file_inv:
  assumes "file_inv st"
  shows "file_inv (final (step E Stop st))
         \<and> max_file_size (final (step E Stop st)) = max_file_size st"
proof -
  have c: "log_page st \<noteq> None \<longrightarrow> log_file st \<noteq> None"
    using assms by (simp add: file_inv_def consistent_def)
  from put_log_page_effect [OF c, of E] obtain s where
    p: "put_log_page E st = Inr s" "log_page s = None" "log_file s = log_file st"
       "poffset s = poffset st" "offset s = offset st" "unchanged st s"
    by blast
  note uf = unchanged_fields [OF p(6)]
  have "pages_bounded s = pages_bounded st"
    using p(6) by (rule pages_bounded_cong) simp_all
  with p uf assms show ?thesis
    by (simp add: iscsi_logger_stop_def emit_def file_inv_def consistent_def
        pages_bounded_def file_capacity_def)
qed

lemma start_file_inv:
  assumes "file_inv st"
  shows "file_inv (final (step E Start st))
         \<and> max_file_size (final (step E Start st)) = max_file_size st"
proof (cases "locked st")
  case True
  with assms show ?thesis by (simp add: iscsi_logger_start_def)
next
  case False
  let ?s = "emit MutexLock (st\<lparr>locked := True\<rparr>)"
  have s: "consistent ?s" "pages_bounded ?s" "max_file_size ?s = max_file_size st"
    "log_file ?s = log_file st" "poffset ?s = poffset st"
    using assms
    by (simp_all add: emit_def file_inv_def consistent_def pages_bounded_def file_capacity_def)
  have e: "iscsi_logger_start E st = fetch_log_file E ?s"
    using False by (simp add: iscsi_logger_start_def)
  show ?thesis
  proof (cases "log_file ?s \<noteq> None \<and> poffset ?s < max_file_size ?s")
    case True
    then have "fetch_log_file E ?s = Inr ?s" "unat (poffset ?s) < file_capacity ?s"
      by (simp_all add: fetch_log_file_keep)
    with s e show ?thesis
      by (simp add: file_inv_def)
  next
    case False
    from fetch_log_file_new [OF s(1) False, of E] obtain st' where
      f: "fetch_log_file E ?s = Inr st'" "consistent st'" "unchanged ?s st'" "poffset st' = 0"
      by blast
    note uf = unchanged_fields [OF f(3)]
    have "pages_bounded st' = pages_bounded ?s"
      using f(3) by (rule pages_bounded_cong) simp_all
    with f uf s e show ?thesis
      by (simp add: file_inv_def)
  qed
qed

lemma step_file_inv:
  assumes "file_inv st"
  shows "file_inv (final (step E x st))
         \<and> max_file_size (final (step E x st)) = max_file_size st"
  using assms
  by (cases x) (simp_all only: alloc_file_inv commit_file_inv roll_file_inv stop_file_inv
      start_file_inv)

lemma final_run_Cons:
  "final (run E (x # xs) st) =
     (case step E x st of Inl e \<Rightarrow> final (step E x st) | Inr st' \<Rightarrow> final (run E xs st'))"
  by (simp split: sum.splits)

lemma run_file_inv:
  "file_inv st \<Longrightarrow>
     file_inv (final (run E xs st)) \<and> max_file_size (final (run E xs st)) = max_file_size st"
proof (induction xs arbitrary: st)
  case Nil
  then show ?case by simp
next
  case (Cons x xs)
  note s = step_file_inv [OF Cons.prems, of E x]
  show ?case
  proof (cases "step E x st")
    case (Inl e)
    with s show ?thesis by (simp add: final_run_Cons)
  next
    case (Inr st')
    with s have "file_inv st'" "max_file_size st' = max_file_size st" by simp_all
    with Cons.IH [of st'] Inr show ?thesis by (simp add: final_run_Cons)
  qed
qed

lemma file_inv_init: "file_inv (init_logger dir n)"
  by (simp add: file_inv_def consistent_def pages_bounded_def init_logger_def)

lemma length_remdups_bounded:
  assumes "\<forall>i \<in> set xs. unat (i :: 64 word) < m"
  shows "length (remdups xs) \<le> m"
proof -
  have "card (set xs) = card (unat ` set xs)"
    by (rule card_image [symmetric]) (simp add: inj_on_def word_unat_eq_iff)
  also have "\<dots> \<le> card {..<m}"
    using assms by (intro card_mono) auto
  finally show ?thesis
    by (simp add: length_remdups_card_conv)
qed


lemma alloc_rolls_file:
  assumes "consistent st" and "log_file st = Some f" and "log_page st = Some pg"
    and "\<not> offset st + MSG_RND_UP sz \<le> PAGE_SIZE" and "MSG_RND_UP sz \<le> PAGE_SIZE"
    and "\<not> poffset st + 1 < max_file_size st"
  shows "\<exists>r st'. iscsi_logger_alloc E sz ty st = Inr (r, st')
     \<and> file_calls (trace st') =
          (if filp_open_ok E (n_open st)
           then [WriteBegin (n_open st) 0 0 (write_begin_status E (n_begin st))] else [])
          @ [FilpOpen (staging_dir st,
                       LogName (get_seconds E (n_open st)) (sint (generation st) smod 1000))
               (if filp_open_ok E (n_open st) then Some (n_open st) else None),
             FilpClose (Some f)]
          @ file_calls (trace st)
     \<and> log_file st' = (if filp_open_ok E (n_open st) then Some (n_open st) else None)
     \<and> poffset st' = 0 \<and> n_open st' = n_open st + 1"
proof -
  have c: "log_page st \<noteq> None \<longrightarrow> log_file st \<noteq> None"
    using assms(2) by simp
  from put_log_page_effect [OF c, of E] obtain s where
    p: "put_log_page E st = Inr s" and
    s: "log_page s = None" "log_file s = log_file st" "n_open s = n_open st"
       "poffset s = poffset st" "generation s = generation st"
       "file_calls (trace s) = file_calls (trace st)" and
    u: "unchanged st s"
    by blast
  note uf = unchanged_fields [OF u]
  let ?s1 = "s\<lparr>offset := 0, poffset := poffset s + 1\<rparr>"
  have 1: "fetch_log_page E (MSG_RND_UP sz) st = fetch_tail E ?s1"
    using assms(3,4) p by (simp add: fetch_log_page_unfold)
  have 2: "consistent ?s1" "log_page ?s1 = None"
    "\<not> (log_file ?s1 \<noteq> None \<and> poffset ?s1 < max_file_size ?s1)"
    using s uf assms(2,6) by (simp_all add: consistent_def)
  from fetch_tail_new [OF 2, of E] obtain st1 where
    t: "fetch_tail E ?s1 = Inr st1" "poffset st1 = 0"
       "log_file st1 = (if filp_open_ok E (n_open ?s1) then Some (n_open ?s1) else None)"
       "n_open st1 = n_open ?s1 + 1"
       "log_file_name st1 =
          LogName (get_seconds E (n_open ?s1)) (sint (generation ?s1) smod 1000)"
       "file_calls (trace st1) =
          (if filp_open_ok E (n_open ?s1)
           then [WriteBegin (n_open ?s1) 0 0 (write_begin_status E (n_begin ?s1))] else [])
          @ FilpOpen (staging_dir ?s1, log_file_name st1) (log_file st1)
          # (case log_file ?s1 of None \<Rightarrow> [] | Some f \<Rightarrow> [FilpClose (Some f)])
          @ file_calls (trace ?s1)"
    by blast
  have fc: "file_calls (trace st1) =
          (if filp_open_ok E (n_open st)
           then [WriteBegin (n_open st) 0 0 (write_begin_status E (n_begin st))] else [])
          @ [FilpOpen (staging_dir st,
                       LogName (get_seconds E (n_open st)) (sint (generation st) smod 1000))
               (if filp_open_ok E (n_open st) then Some (n_open st) else None),
             FilpClose (Some f)]
          @ file_calls (trace st)"
    using t(3,5,6) s uf assms(2) by simp
  show ?thesis
  proof (cases "log_page st1")
    case None
    with 1 t fc s assms(5) show ?thesis
      by (simp add: iscsi_logger_alloc_unfold not_less [symmetric])
  next
    case (Some pg')
    with 1 t fc s assms(5) show ?thesis
      by (simp add: iscsi_logger_alloc_unfold not_less [symmetric])
  qed
qed

text \<open>
  Claim C2, as the code has it. With a limit of 0 pages the first allocation opens a file
  and requests its page 0: the file has one page.
\<close>

theorem pages_per_file_counterexample:
  "unat (max_file_size (init_logger ''/dev/shm'' 0)) = 0
   \<and> length (file_pages 0 (trace (final (run (good_env 0) [Alloc 8 1]
                                           (init_logger ''/dev/shm'' 0))))) = 1"
  by (simp add: logger_defs sample_defs Let_def file_pages_def)

text \<open>
  Claim C2, amended. For every limit \<open>n\<close> and every sequence of calls from the initial
  state, every page requested from a file has an index below \<open>max 1 n\<close>, so a file never
  has more than \<open>max 1 n\<close> pages: a new file always takes its first page, and no file
  takes more than \<open>n\<close> pages when \<open>n\<close> is not 0. And when the current page is the last one
  the file may take (\<open>poffset + 1 = max_file_size\<close>), the allocation that does not fit in it
  closes the file and opens a new one before it requests a page, which is page 0 of the
  new file.
\<close>

theorem pages_per_file_bounded:
  "(\<forall>i \<in> set (begun_pages f (trace (final (run E ops (init_logger dir n))))).
      unat i < max 1 (unat n))
   \<and> length (file_pages f (trace (final (run E ops (init_logger dir n))))) \<le> max 1 (unat n)
   \<and> (consistent st \<and> log_file st = Some g \<and> log_page st = Some pg
        \<and> \<not> offset st + MSG_RND_UP sz \<le> PAGE_SIZE \<and> MSG_RND_UP sz \<le> PAGE_SIZE
        \<and> poffset st + 1 = max_file_size st
      \<longrightarrow> (\<exists>r st'. iscsi_logger_alloc E sz ty st = Inr (r, st')
             \<and> file_calls (trace st') =
                  (if filp_open_ok E (n_open st)
                   then [WriteBegin (n_open st) 0 0 (write_begin_status E (n_begin st))] else [])
                  @ [FilpOpen (staging_dir st,
                        LogName (get_seconds E (n_open st)) (sint (generation st) smod 1000))
                       (if filp_open_ok E (n_open st) then Some (n_open st) else None),
                     FilpClose (Some g)]
                  @ file_calls (trace st)))"
proof -
  let ?st = "final (run E ops (init_logger dir n))"
  from run_file_inv [OF file_inv_init, of E ops dir n]
  have "file_inv ?st" "max_file_size ?st = n"
    by (simp_all add: init_logger_def)
  then have b: "\<forall>i \<in> set (begun_pages f (trace ?st)). unat i < max 1 (unat n)"
    by (simp add: file_inv_def pages_bounded_def file_capacity_def)
  then have "length (file_pages f (trace ?st)) \<le> max 1 (unat n)"
    unfolding file_pages_def by (rule length_remdups_bounded)
  moreover have "\<exists>r st'. iscsi_logger_alloc E sz ty st = Inr (r, st')
             \<and> file_calls (trace st') =
                  (if filp_open_ok E (n_open st)
                   then [WriteBegin (n_open st) 0 0 (write_begin_status E (n_begin st))] else [])
                  @ [FilpOpen (staging_dir st,
                        LogName (get_seconds E (n_open st)) (sint (generation st) smod 1000))
                       (if filp_open_ok E (n_open st) then Some (n_open st) else None),
                     FilpClose (Some g)]
                  @ file_calls (trace st)"
    if "consistent st" "log_file st = Some g" "log_page st = Some pg"
      "\<not> offset st + MSG_RND_UP sz \<le> PAGE_SIZE" "MSG_RND_UP sz \<le> PAGE_SIZE"
      "poffset st + 1 = max_file_size st"
  proof -
    from that(6) have "\<not> poffset st + 1 < max_file_size st" by simp
    from alloc_rolls_file [OF that(1-5) this, of E ty] show ?thesis by blast
  qed
  ultimately show ?thesis
    using b by blast
qed

theorem pages_per_file_bounded_witness:
  "begun_pages 0 (trace (final (run (good_env 0)
       [Alloc 4096 1, Commit, Alloc 4096 1, Commit, Alloc 4096 1, Commit]
       (init_logger ''/dev/shm'' 2)))) = [1, 0]
   \<and> length (file_pages 0 (trace (final (run (good_env 0)
       [Alloc 4096 1, Commit, Alloc 4096 1, Commit, Alloc 4096 1, Commit]
       (init_logger ''/dev/shm'' 2))))) \<le> 2
   \<and> consistent two_pages \<and> log_file two_pages = Some 0 \<and> log_page two_pages = Some 1
   \<and> \<not> offset two_pages + MSG_RND_UP 4096 \<le> PAGE_SIZE \<and> MSG_RND_UP 4096 \<le> PAGE_SIZE
   \<and> poffset two_pages + 1 = max_file_size two_pages
   \<and> (\<exists>r st'. iscsi_logger_alloc (good_env 0) 4096 1 two_pages = Inr (r, st')
         \<and> file_calls (trace st') =
             [WriteBegin 1 0 0 0, FilpOpen (''/dev/shm'', LogName 0 1) (Some 1),
              FilpClose (Some 0), WriteBegin 0 1 4096 0, WriteBegin 0 0 0 0,
              FilpOpen (''/dev/shm'', LogName 0 0) (Some 0)])"
proof -
  let ?ops = "[Alloc 4096 1, Commit, Alloc 4096 1, Commit, Alloc 4096 1, Commit]"
  note t = pages_per_file_bounded
    [of 0 "good_env 0" ?ops "''/dev/shm''" 2 two_pages 0 1 4096 1]
  have h: "consistent two_pages" "log_file two_pages = Some 0" "log_page two_pages = Some 1"
    "\<not> offset two_pages + MSG_RND_UP 4096 \<le> PAGE_SIZE" "MSG_RND_UP 4096 \<le> PAGE_SIZE"
    "poffset two_pages + 1 = max_file_size two_pages"
    by (simp_all add: two_pages_eq consistent_def MSG_RND_UP_def PAGE_SIZE_eq)
  have b: "begun_pages 0 (trace (final (run (good_env 0) ?ops (init_logger ''/dev/shm'' 2))))
           = [1, 0]"
    by (simp add: logger_defs sample_defs Let_def signed_modulo_int_def)
  from t have l: "length (file_pages 0 (trace (final (run (good_env 0) ?ops
                   (init_logger ''/dev/shm'' 2))))) \<le> 2"
    by simp
  from t h obtain r st' where
    "iscsi_logger_alloc (good_env 0) 4096 1 two_pages = Inr (r, st')"
    "file_calls (trace st') =
       (if filp_open_ok (good_env 0) (n_open two_pages)
        then [WriteBegin (n_open two_pages) 0 0
                (write_begin_status (good_env 0) (n_begin two_pages))] else [])
       @ [FilpOpen (staging_dir two_pages,
             LogName (get_seconds (good_env 0) (n_open two_pages))
               (sint (generation two_pages) smod 1000))
            (if filp_open_ok (good_env 0) (n_open two_pages) then Some (n_open two_pages)
             else None),
          FilpClose (Some 0)]
       @ file_calls (trace two_pages)"
    by blast
  then have "\<exists>r st'. iscsi_logger_alloc (good_env 0) 4096 1 two_pages = Inr (r, st')
         \<and> file_calls (trace st') =
             [WriteBegin 1 0 0 0, FilpOpen (''/dev/shm'', LogName 0 1) (Some 1),
              FilpClose (Some 0), WriteBegin 0 1 4096 0, WriteBegin 0 0 0 0,
              FilpOpen (''/dev/shm'', LogName 0 0) (Some 0)]"
    by (simp add: two_pages_eq good_env_def signed_modulo_int_def)
  with h b l show ?thesis by blast
qed

section \<open>The slot of an allocation\<close>

lemma unat_add_in_page:
  assumes "a \<le> PAGE_SIZE" and "b \<le> PAGE_SIZE"
  shows "unat (a + b) = unat a + unat b"
proof -
  have "unat a \<le> 4096" "unat b \<le> 4096"
    using assms by (simp_all add: word_le_nat_alt PAGE_SIZE_eq)
  then have "unat a + unat b < 2 ^ LENGTH(64)" by simp
  then show ?thesis by (simp only: unat_add_lem)
qed

lemma fetch_log_page_page_inv:
  assumes "consistent st" and "page_inv st" and "sz \<le> PAGE_SIZE"
  shows "\<exists>st1. fetch_log_page E sz st = Inr st1 \<and> consistent st1 \<and> page_inv st1
     \<and> (\<forall>p. page_records p (trace st1) = page_records p (trace st))
     \<and> (log_page st1 \<noteq> None \<longrightarrow> unat (offset st1) + unat sz \<le> unat PAGE_SIZE)
     \<and> (if log_page st \<noteq> None \<and> offset st + sz \<le> PAGE_SIZE
         then log_page st1 = log_page st \<and> offset st1 = offset st
         else offset st1 = 0 \<and> (log_page st1 = None \<or> log_page st1 = Some (n_begin st)))
     \<and> (filp_open_ok E (n_open st) \<and> write_begin_status E (n_begin st) = 0
          \<longrightarrow> log_page st1 \<noteq> None)"
proof (cases "log_page st \<noteq> None \<and> offset st + sz \<le> PAGE_SIZE")
  case True
  have "offset st \<le> PAGE_SIZE"
    using assms(2) by (simp add: page_inv_def)
  then have "unat (offset st + sz) = unat (offset st) + unat sz"
    using assms(3) by (rule unat_add_in_page)
  with True have "unat (offset st) + unat sz \<le> unat PAGE_SIZE"
    by (simp add: word_le_nat_alt)
  with True assms show ?thesis
    by (simp add: fetch_log_page_fit)
next
  case False
  have o: "log_page st \<noteq> None \<or> offset st = 0"
    using assms(2) by (auto simp add: page_inv_def)
  have r: "\<forall>p \<ge> n_begin st. page_records p (trace st) = []"
    using assms(2) by (simp add: page_inv_def)
  from fetch_log_page_next [OF assms(1) False, of E] o obtain st1 where
    f: "fetch_log_page E sz st = Inr st1" "consistent st1"
      "\<forall>p. page_records p (trace st1) = page_records p (trace st)"
      "offset st1 = 0"
      "log_page st1 = None \<and> n_begin st \<le> n_begin st1 \<and> n_begin st1 \<le> n_begin st + 1
          \<or> log_page st1 = Some (n_begin st) \<and> n_begin st1 = n_begin st + 1"
      "filp_open_ok E (n_open st) \<and> write_begin_status E (n_begin st) = 0
          \<longrightarrow> log_page st1 = Some (n_begin st)"
    by blast
  have p: "page_inv st1"
    using f(3,4,5) r by (auto simp add: page_inv_def)
  have "unat (offset st1) + unat sz \<le> unat PAGE_SIZE"
    using f(4) assms(3) by (simp add: word_le_nat_alt)
  with False f p show ?thesis
    by auto
qed

lemma packed_bound:
  "packed rs off \<Longrightarrow> \<forall>(start, sz, ty) \<in> set rs. unat start + unat sz \<le> unat off"
proof (induction rs arbitrary: off)
  case Nil
  then show ?case by simp
next
  case (Cons r rs)
  obtain start sz ty where r: "r = (start, sz, ty)"
    by (cases r) auto
  with Cons.prems have e: "unat start + unat sz = unat off" and p: "packed rs start"
    by simp_all
  from Cons.IH [OF p] e r show ?case
    by fastforce
qed

lemma store_header_page_inv:
  assumes "consistent st1" and "page_inv st1" and "log_page st1 = Some pg"
    and "rs \<le> PAGE_SIZE" and "unat (offset st1) + unat rs \<le> unat PAGE_SIZE"
  shows "consistent (st1\<lparr>paddr := a, offset := offset st1 + rs,
                        trace := StoreHeader pg (offset st1) rs ty # Kmap pg # trace st1\<rparr>)
     \<and> page_inv (st1\<lparr>paddr := a, offset := offset st1 + rs,
                        trace := StoreHeader pg (offset st1) rs ty # Kmap pg # trace st1\<rparr>)
     \<and> (\<forall>(off, sz, t) \<in> set (page_records pg (trace st1)).
           unat off + unat sz \<le> unat (offset st1))"
proof -
  have o: "offset st1 \<le> PAGE_SIZE"
    using assms(2) by (simp add: page_inv_def)
  have u: "unat (offset st1 + rs) = unat (offset st1) + unat rs"
    using o assms(4) by (rule unat_add_in_page)
  then have le: "offset st1 + rs \<le> PAGE_SIZE"
    using assms(5) by (simp add: word_le_nat_alt)
  have c: "consistent (st1\<lparr>paddr := a, offset := offset st1 + rs,
                        trace := StoreHeader pg (offset st1) rs ty # Kmap pg # trace st1\<rparr>)"
    using assms(1,3) by (auto simp add: consistent_def)
  have "packed (page_records pg (trace st1)) (offset st1)"
    using assms(2,3) by (simp add: page_inv_def)
  then have r: "\<forall>(off, sz, t) \<in> set (page_records pg (trace st1)).
           unat off + unat sz \<le> unat (offset st1)"
    by (rule packed_bound)
  have "page_inv (st1\<lparr>paddr := a, offset := offset st1 + rs,
                        trace := StoreHeader pg (offset st1) rs ty # Kmap pg # trace st1\<rparr>)"
    using assms(2,3) le u by (auto simp add: page_inv_def)
  with c r show ?thesis by blast
qed

lemma emit_Kunmap_inv:
  "consistent (emit (Kunmap a) st) = consistent st"
  "page_inv (emit (Kunmap a) st) = page_inv st"
  by (simp_all add: emit_def consistent_def page_inv_def)




text \<open>The invariants are kept by every call but \<open>iscsi_logger_stop\<close>.\<close>

lemma page_inv_unchanged:
  assumes "page_inv st" and "unchanged st s" and "log_page s = None" and "offset s = 0"
  shows "page_inv s"
  using assms by (simp add: page_inv_def unchanged_def)

lemma alloc_page_inv:
  assumes "consistent st" and "page_inv st"
  shows "consistent (final (step E (Alloc sz ty) st))
         \<and> page_inv (final (step E (Alloc sz ty) st))"
proof (cases "MSG_RND_UP sz > PAGE_SIZE")
  case True
  with assms show ?thesis by (simp add: iscsi_logger_alloc_unfold)
next
  case False
  then have le: "MSG_RND_UP sz \<le> PAGE_SIZE" by simp
  from fetch_log_page_page_inv [OF assms le, of E] obtain st1 where
    f: "fetch_log_page E (MSG_RND_UP sz) st = Inr st1" "consistent st1" "page_inv st1"
       "log_page st1 \<noteq> None \<longrightarrow> unat (offset st1) + unat (MSG_RND_UP sz) \<le> unat PAGE_SIZE"
    by blast
  show ?thesis
  proof (cases "log_page st1")
    case None
    with False f show ?thesis by (simp add: iscsi_logger_alloc_unfold)
  next
    case (Some pg)
    with f(4) have "unat (offset st1) + unat (MSG_RND_UP sz) \<le> unat PAGE_SIZE" by simp
    from store_header_page_inv [OF f(2,3) Some le this, where a = "Some pg" and ty = ty]
    show ?thesis
      using False f(1) Some by (simp add: iscsi_logger_alloc_unfold)
  qed
qed

lemma commit_page_inv:
  assumes "consistent st" and "page_inv st"
  shows "consistent (final (step E Commit st)) \<and> page_inv (final (step E Commit st))"
  using assms by (cases "paddr st") (simp_all add: iscsi_logger_commit_def emit_Kunmap_inv)

lemma roll_page_inv:
  assumes "consistent st" and "page_inv st"
  shows "consistent (final (step E Roll st)) \<and> page_inv (final (step E Roll st))"
proof (cases "log_file st")
  case None
  with assms show ?thesis by (simp add: iscsi_logger_roll_none)
next
  case (Some f)
  from iscsi_logger_roll_effect [OF Some, of E] obtain s where
    r: "iscsi_logger_roll E st = Inr s" "log_page s = None" "log_file s = None"
       "poffset s = 0" "offset s = 0" "unchanged st s"
    by blast
  have "page_inv s"
    using assms(2) r(6,2,5) by (rule page_inv_unchanged)
  with r show ?thesis
    by (simp add: consistent_def)
qed

lemma start_page_inv:
  assumes "consistent st" and "page_inv st"
  shows "consistent (final (step E Start st)) \<and> page_inv (final (step E Start st))"
proof (cases "locked st")
  case True
  with assms show ?thesis by (simp add: iscsi_logger_start_def)
next
  case False
  let ?s = "emit MutexLock (st\<lparr>locked := True\<rparr>)"
  have s: "consistent ?s" "page_inv ?s"
    using assms by (simp_all add: emit_def consistent_def page_inv_def)
  have e: "iscsi_logger_start E st = fetch_log_file E ?s"
    using False by (simp add: iscsi_logger_start_def)
  show ?thesis
  proof (cases "log_file ?s \<noteq> None \<and> poffset ?s < max_file_size ?s")
    case True
    then have "fetch_log_file E ?s = Inr ?s"
      by (simp add: fetch_log_file_keep)
    with s e show ?thesis by simp
  next
    case False
    from fetch_log_file_new [OF s(1) False, of E] obtain st' where
      f: "fetch_log_file E ?s = Inr st'" "consistent st'" "unchanged ?s st'"
         "log_page st' = None" "offset st' = 0"
      by blast
    have "page_inv st'"
      using s(2) f(3,4,5) by (rule page_inv_unchanged)
    with f e show ?thesis by simp
  qed
qed

lemma step_page_inv:
  assumes "consistent st" and "page_inv st" and "x \<noteq> Stop"
  shows "consistent (final (step E x st)) \<and> page_inv (final (step E x st))"
  using assms
  by (cases x) (simp_all add: alloc_page_inv commit_page_inv roll_page_inv start_page_inv
      del: step.simps)

text \<open>
  Both invariants hold in every state a sequence of calls without \<open>iscsi_logger_stop\<close>
  reaches from the initial state.
\<close>

lemma run_page_inv:
  "consistent st \<Longrightarrow> page_inv st \<Longrightarrow> Stop \<notin> set xs \<Longrightarrow>
     consistent (final (run E xs st)) \<and> page_inv (final (run E xs st))"
proof (induction xs arbitrary: st)
  case Nil
  then show ?case by simp
next
  case (Cons x xs)
  from Cons.prems have x: "x \<noteq> Stop" "Stop \<notin> set xs" by auto
  note s = step_page_inv [OF Cons.prems(1,2) x(1), of E]
  show ?case
  proof (cases "step E x st")
    case (Inl e)
    with s show ?thesis by (simp add: final_run_Cons)
  next
    case (Inr st')
    with s have "consistent st'" "page_inv st'" by simp_all
    from Cons.IH [OF this x(2)] Inr show ?thesis by (simp add: final_run_Cons)
  qed
qed

lemma page_inv_init: "consistent (init_logger dir n) \<and> page_inv (init_logger dir n)"
  by (simp add: consistent_def page_inv_def init_logger_def)

section \<open>The records of a page of a file\<close>

lemma second_session_eq:
  "second_session =
     \<lparr>locked = True, staging_dir = ''/dev/shm'', max_file_size = 1024, generation = 1,
      log_file = Some 0, log_page = Some 1, poffset = 0, offset = 32, paddr = Some 1,
      fsdata = Some 1, log_file_name = LogName 0 0, n_open = 1, n_begin = 2, n_end = 1,
      trace = [Kunmap 1, StoreHeader 1 16 16 1, Kmap 1, WriteBegin 0 0 0 0, MutexLock,
               MutexUnlock, WriteEnd 0 0 0 0 0, Kunmap 0, StoreTerminator 0 16, Kmap 0,
               Kunmap 0, StoreHeader 0 0 16 1, Kmap 0, WriteBegin 0 0 0 0,
               Printk (CreatedLogFile (''/dev/shm'', LogName 0 0)),
               FilpOpen (''/dev/shm'', LogName 0 0) (Some 0), MutexLock]\<rparr>"
  by (simp add: logger_defs sample_defs second_session_def Let_def signed_modulo_int_def)

lemma unchanged_places:
  "unchanged a b \<Longrightarrow> begin_count (trace b) = begin_count (trace a)
     \<and> n_begin b = n_begin a
     \<and> (\<forall>p. page_place p (trace b) = page_place p (trace a))
     \<and> (\<forall>f i. file_page_records f i (trace b) = file_page_records f i (trace a))"
  by (simp add: unchanged_def)

lemma chain_inv_transfer:
  assumes "chain_inv st" and "unchanged st s" and "n_open s = n_open st"
    and "log_page s = None"
    and "log_file s = None
         \<or> log_file s = log_file st \<and> poffset s = poffset st \<and> offset s = offset st"
  shows "chain_inv s"
  using assms(1,3,4,5) unchanged_places [OF assms(2)]
  by (auto simp add: chain_inv_def)

lemma word_less_succ:
  assumes "unat (p :: 64 word) < file_capacity st"
  shows "p < p + 1"
proof -
  have "file_capacity st < 2 ^ 64"
    using unsigned_less [of "max_file_size st", where 'a = nat]
    by (simp add: file_capacity_def)
  with assms have "unat p + unat (1 :: 64 word) < 2 ^ LENGTH(64)"
    by simp
  then have "unat (p + 1) = unat p + unat (1 :: 64 word)"
    by (simp only: unat_add_lem)
  then show ?thesis
    by (simp add: word_less_nat_alt)
qed

lemma chain_inv_next_page:
  assumes "chain_inv s" and "log_page s = None" and "poffset s < poffset s + 1"
  shows "chain_inv (s\<lparr>offset := 0, poffset := poffset s + 1\<rparr>)"
proof -
  have "poffset s < i" if "poffset s + 1 < i" for i
    using that assms(3) by simp
  with assms show ?thesis
    by (auto simp add: chain_inv_def)
qed

lemma chain_inv_create:
  assumes "chain_inv s" and "log_file s = None" and "log_page s = None" and "offset s = 0"
  shows "chain_inv (create_log_file E s)"
  using assms by (simp add: create_log_file_def emit_def Let_def chain_inv_def)

lemma chain_inv_begin:
  assumes "chain_inv s" and "log_file s = Some f" and "log_page s = None"
  shows "chain_inv (begin_log_page E f s)"
  using assms by (simp add: begin_log_page_def emit_def Let_def chain_inv_def)

lemma chain_inv_store:
  assumes "chain_inv st1" and "log_page st1 = Some pg" and "rs \<le> PAGE_SIZE"
  shows "chain_inv (st1\<lparr>paddr := a, offset := offset st1 + rs,
                        trace := StoreHeader pg (offset st1) rs ty # Kmap pg # trace st1\<rparr>)"
proof -
  from assms(1,2) obtain f where
    f: "log_file st1 = Some f" "page_place pg (trace st1) = Some (f, poffset st1)"
    by (auto simp add: chain_inv_def)
  with assms show ?thesis
    by (auto simp add: chain_inv_def)
qed

lemma chain_inv_emit:
  "chain_inv (emit (Kunmap a) st) = chain_inv st"
  "chain_inv (emit MutexLock (st\<lparr>locked := b\<rparr>)) = chain_inv st"
  "chain_inv (emit MutexUnlock (st\<lparr>locked := b\<rparr>)) = chain_inv st"
  by (simp_all add: emit_def chain_inv_def)


lemma fetch_log_file_chain:
  assumes "consistent st" and "chain_inv st"
    and "\<not> (log_file st \<noteq> None \<and> poffset st < max_file_size st)"
  shows "\<exists>st'. fetch_log_file E st = Inr st' \<and> chain_inv st' \<and> log_page st' = None"
proof (cases "log_file st")
  case None
  then have e: "fetch_log_file E st = Inr (create_log_file E st)"
    by (simp add: fetch_log_file_unfold)
  have n: "log_page st = None" "offset st = 0"
    using None assms(1) by (auto simp add: consistent_def)
  have "chain_inv (create_log_file E st)"
    using assms(2) None n by (rule chain_inv_create)
  moreover have "log_page (create_log_file E st) = None"
    using n(1) by (simp add: create_log_file_def emit_def Let_def)
  ultimately show ?thesis
    using e by simp
next
  case (Some f)
  from iscsi_logger_roll_effect [OF Some, of E] obtain s where
    r: "iscsi_logger_roll E st = Inr s" "log_page s = None" "log_file s = None"
       "offset s = 0" "n_open s = n_open st" "unchanged st s"
    by blast
  have e: "fetch_log_file E st = Inr (create_log_file E s)"
    using Some assms(3) r(1) by (simp add: fetch_log_file_unfold)
  have "chain_inv s"
    using assms(2) r(6,5,2) r(3) by (rule chain_inv_transfer [OF _ _ _ _ disjI1])
  then have "chain_inv (create_log_file E s)"
    using r(3,2,4) by (rule chain_inv_create)
  moreover have "log_page (create_log_file E s) = None"
    using r(2) by (simp add: create_log_file_def emit_def Let_def)
  ultimately show ?thesis
    using e by simp
qed

lemma fetch_tail_chain:
  assumes "consistent s1" and "chain_inv s1" and "log_page s1 = None"
  shows "\<exists>st'. fetch_tail E s1 = Inr st' \<and> chain_inv st'"
proof -
  obtain s2 where
    f: "fetch_log_file E s1 = Inr s2" and s2: "chain_inv s2" "log_page s2 = None"
  proof (cases "log_file s1 \<noteq> None \<and> poffset s1 < max_file_size s1")
    case True
    then have "fetch_log_file E s1 = Inr s1"
      by (simp add: fetch_log_file_keep)
    with assms that show ?thesis by blast
  next
    case False
    from fetch_log_file_chain [OF assms(1,2) False, of E] that show ?thesis by blast
  qed
  show ?thesis
  proof (cases "log_file s2")
    case None
    with f s2 show ?thesis by (simp add: fetch_tail_def)
  next
    case (Some g)
    have "chain_inv (begin_log_page E g s2)"
      using s2(1) Some s2(2) by (rule chain_inv_begin)
    with f Some show ?thesis by (simp add: fetch_tail_def)
  qed
qed

lemma fetch_log_page_chain:
  assumes "file_inv st" and "chain_inv st"
  shows "\<exists>st'. fetch_log_page E sz st = Inr st' \<and> chain_inv st'"
proof (cases "log_page st \<noteq> None \<and> offset st + sz \<le> PAGE_SIZE")
  case True
  with assms show ?thesis by (simp add: fetch_log_page_fit)
next
  case False
  have c: "consistent st"
    using assms(1) by (simp add: file_inv_def)
  show ?thesis
  proof (cases "log_page st")
    case None
    with False have "fetch_log_page E sz st = fetch_tail E st"
      by (simp add: fetch_log_page_unfold)
    with fetch_tail_chain [OF c assms(2) None, of E] show ?thesis by simp
  next
    case (Some pg)
    have pf: "log_page st \<noteq> None \<longrightarrow> log_file st \<noteq> None"
      using c by (simp add: consistent_def)
    with Some obtain f where f: "log_file st = Some f" by auto
    from put_log_page_effect [OF pf, of E] obtain s where
      p: "put_log_page E st = Inr s" and
      s: "log_page s = None" "log_file s = log_file st" "poffset s = poffset st"
         "offset s = offset st" "n_open s = n_open st" and
      u: "unchanged st s"
      by blast
    let ?s1 = "s\<lparr>offset := 0, poffset := poffset s + 1\<rparr>"
    have e: "fetch_log_page E sz st = fetch_tail E ?s1"
      using Some False p by (simp add: fetch_log_page_unfold)
    have "chain_inv s"
      using assms(2) u s(5,1) s(2,3,4) by (intro chain_inv_transfer [of st s]) simp_all
    moreover have "unat (poffset s) < file_capacity st"
      using assms(1) f s(3) by (simp add: file_inv_def)
    then have "poffset s < poffset s + 1"
      by (rule word_less_succ)
    ultimately have 1: "chain_inv ?s1"
      using s(1) by (intro chain_inv_next_page)
    have 2: "consistent ?s1" "log_page ?s1 = None"
      using s f by (simp_all add: consistent_def)
    from fetch_tail_chain [OF 2(1) 1 2(2), of E] e show ?thesis by simp
  qed
qed

lemma alloc_chain:
  assumes "file_inv st" and "chain_inv st"
  shows "chain_inv (final (step E (Alloc sz ty) st))"
proof (cases "MSG_RND_UP sz > PAGE_SIZE")
  case True
  with assms show ?thesis by (simp add: iscsi_logger_alloc_unfold)
next
  case False
  then have le: "MSG_RND_UP sz \<le> PAGE_SIZE" by simp
  from fetch_log_page_chain [OF assms, of E "MSG_RND_UP sz"] obtain st1 where
    f: "fetch_log_page E (MSG_RND_UP sz) st = Inr st1" "chain_inv st1"
    by blast
  show ?thesis
  proof (cases "log_page st1")
    case None
    with False f show ?thesis by (simp add: iscsi_logger_alloc_unfold)
  next
    case (Some pg)
    from chain_inv_store [OF f(2) Some le, where a = "Some pg" and ty = ty]
    show ?thesis
      using False f(1) Some by (simp add: iscsi_logger_alloc_unfold)
  qed
qed

lemma commit_chain:
  assumes "chain_inv st"
  shows "chain_inv (final (step E Commit st))"
  using assms by (cases "paddr st") (simp_all add: iscsi_logger_commit_def chain_inv_emit)

lemma roll_chain:
  assumes "chain_inv st"
  shows "chain_inv (final (step E Roll st))"
proof (cases "log_file st")
  case None
  with assms show ?thesis by (simp add: iscsi_logger_roll_none)
next
  case (Some f)
  from iscsi_logger_roll_effect [OF Some, of E] obtain s where
    r: "iscsi_logger_roll E st = Inr s" "log_page s = None" "log_file s = None"
       "n_open s = n_open st" "unchanged st s"
    by blast
  have "chain_inv s"
    using assms r(5,4,2) r(3) by (rule chain_inv_transfer [OF _ _ _ _ disjI1])
  with r(1) show ?thesis by simp
qed

lemma stop_chain:
  assumes "file_inv st" and "chain_inv st"
  shows "chain_inv (final (step E Stop st))"
proof -
  have pf: "log_page st \<noteq> None \<longrightarrow> log_file st \<noteq> None"
    using assms(1) by (simp add: file_inv_def consistent_def)
  from put_log_page_effect [OF pf, of E] obtain s where
    p: "put_log_page E st = Inr s" and
    s: "log_page s = None" "log_file s = log_file st" "poffset s = poffset st"
       "offset s = offset st" "n_open s = n_open st" and
    u: "unchanged st s"
    by blast
  have "chain_inv s"
    using assms(2) u s(5,1) s(2,3,4) by (intro chain_inv_transfer [of st s]) simp_all
  with p show ?thesis
    by (simp add: iscsi_logger_stop_def chain_inv_emit)
qed

lemma start_chain:
  assumes "file_inv st" and "chain_inv st"
  shows "chain_inv (final (step E Start st))"
proof (cases "locked st")
  case True
  with assms show ?thesis by (simp add: iscsi_logger_start_def)
next
  case False
  let ?s = "emit MutexLock (st\<lparr>locked := True\<rparr>)"
  have s: "consistent ?s" "chain_inv ?s"
    using assms by (simp_all add: chain_inv_emit) (simp add: emit_def file_inv_def consistent_def)
  have e: "iscsi_logger_start E st = fetch_log_file E ?s"
    using False by (simp add: iscsi_logger_start_def)
  show ?thesis
  proof (cases "log_file ?s \<noteq> None \<and> poffset ?s < max_file_size ?s")
    case True
    then have "fetch_log_file E ?s = Inr ?s"
      by (simp add: fetch_log_file_keep)
    with s e show ?thesis by simp
  next
    case False
    from fetch_log_file_chain [OF s False, of E] e show ?thesis by auto
  qed
qed

lemma step_chain:
  assumes "file_inv st" and "chain_inv st"
  shows "chain_inv (final (step E x st))"
  using assms
  by (cases x) (simp_all add: alloc_chain commit_chain roll_chain stop_chain start_chain
      del: step.simps)

lemma run_chain:
  "file_inv st \<Longrightarrow> chain_inv st \<Longrightarrow> chain_inv (final (run E xs st))"
proof (induction xs arbitrary: st)
  case Nil
  then show ?case by simp
next
  case (Cons x xs)
  note c = step_chain [OF Cons.prems, of E x]
  note f = step_file_inv [OF Cons.prems(1), of E x]
  show ?case
  proof (cases "step E x st")
    case (Inl e)
    with c show ?thesis by (simp add: final_run_Cons)
  next
    case (Inr st')
    with c f have "file_inv st'" "chain_inv st'" by simp_all
    from Cons.IH [OF this] Inr show ?thesis by (simp add: final_run_Cons)
  qed
qed

lemma chain_inv_init: "chain_inv (init_logger dir n)"
  by (simp add: chain_inv_def init_logger_def)

text \<open>
  Records that are chained, each no larger than a page and fewer than \<open>2 ^ 52\<close>, are
  packed: no sum wraps around.
\<close>

lemma chained_packed:
  assumes "chained rs off" and "\<forall>(start, sz, ty) \<in> set rs. sz \<le> PAGE_SIZE"
    and "length rs < 2 ^ 52"
  shows "packed rs off \<and> unat off \<le> 4096 * length rs"
  using assms
proof (induction rs arbitrary: off)
  case Nil
  then show ?case by simp
next
  case (Cons r rs)
  obtain start sz ty where r: "r = (start, sz, ty)"
    by (cases r) auto
  from Cons.prems r have c: "start + sz = off" "chained rs start" "sz \<le> PAGE_SIZE"
    "\<forall>(start, sz, ty) \<in> set rs. sz \<le> PAGE_SIZE" "length rs < 2 ^ 52"
    by simp_all
  from Cons.IH [OF c(2,4,5)] have ih: "packed rs start" "unat start \<le> 4096 * length rs"
    by simp_all
  have z: "unat sz \<le> 4096"
    using c(3) by (simp add: word_le_nat_alt PAGE_SIZE_eq)
  have "4096 * length rs < (2 ^ 52 - 1) * 4096 + 1"
    using c(5) by simp
  with ih(2) z have "unat start + unat sz < 2 ^ LENGTH(64)"
    using Cons.prems(3) by simp
  then have "unat (start + sz) = unat start + unat sz"
    by (simp only: unat_add_lem)
  with c(1) ih z r show ?case
    by auto
qed

section \<open>Sealing a page\<close>

text \<open>
  Claim C4. \<open>put_log_page\<close> on an open page stores exactly one terminator, at the offset,
  when the offset is below \<open>PAGE_SIZE\<close>, and none otherwise; the offset is not advanced, and
  the page is then handed to \<^verbatim>\<open>pagecache_write_end\<close>. In every state reached from the
  initial state, by any sequence of calls, the open page is the page of the open file at
  the current page index, and the records stored at that place (in this session or in
  one stopped before) are chained from offset 0 up to the offset: each starts where the
  one before ended, in the program's 64-bit sums, and the last ends at the offset, where
  the terminator goes. With fewer than \<open>2 ^ 52\<close> records at the place none of the sums wraps
  around and the records are packed.
\<close>

theorem put_log_page_terminator:
  "(log_page st = Some pg \<and> log_file st = Some f \<longrightarrow>
      (\<exists>st'. put_log_page E st = Inr st' \<and> offset st' = offset st \<and> log_page st' = None
          \<and> terminator_stores (trace st') =
              (if offset st < PAGE_SIZE then [(pg, offset st)] else [])
                @ terminator_stores (trace st)
          \<and> (\<exists>msgs. trace st' =
                msgs @ [WriteEnd f (poffset st) (push_bit PAGE_SHIFT (poffset st)) pg
                          (write_end_status E (n_end st))]
                  @ (if offset st < PAGE_SIZE
                     then [Kunmap pg, StoreTerminator pg (offset st), Kmap pg] else [])
                  @ trace st)))
   \<and> (log_page (final (run E ops (init_logger dir n))) = Some pg'
        \<and> log_file (final (run E ops (init_logger dir n))) = Some f' \<longrightarrow>
        page_place pg' (trace (final (run E ops (init_logger dir n))))
          = Some (f', poffset (final (run E ops (init_logger dir n))))
        \<and> chained
            (file_page_records f' (poffset (final (run E ops (init_logger dir n))))
               (trace (final (run E ops (init_logger dir n)))))
            (offset (final (run E ops (init_logger dir n))))
        \<and> (length (file_page_records f' (poffset (final (run E ops (init_logger dir n))))
                     (trace (final (run E ops (init_logger dir n))))) < 2 ^ 52 \<longrightarrow>
            packed
              (file_page_records f' (poffset (final (run E ops (init_logger dir n))))
                 (trace (final (run E ops (init_logger dir n)))))
              (offset (final (run E ops (init_logger dir n))))))"
proof -
  let ?st = "final (run E ops (init_logger dir n))"
  have c: "chain_inv ?st"
    using file_inv_init chain_inv_init by (rule run_chain)
  have "page_place pg' (trace ?st) = Some (f', poffset ?st)
        \<and> chained (file_page_records f' (poffset ?st) (trace ?st)) (offset ?st)
        \<and> (length (file_page_records f' (poffset ?st) (trace ?st)) < 2 ^ 52 \<longrightarrow>
            packed (file_page_records f' (poffset ?st) (trace ?st)) (offset ?st))"
    if h: "log_page ?st = Some pg'" "log_file ?st = Some f'"
  proof -
    from c h have 1: "page_place pg' (trace ?st) = Some (f', poffset ?st)"
      and 2: "chained (file_page_records f' (poffset ?st) (trace ?st)) (offset ?st)"
      and 3: "\<forall>(start, sz, ty) \<in> set (file_page_records f' (poffset ?st) (trace ?st)).
                sz \<le> PAGE_SIZE"
      by (simp_all add: chain_inv_def)
    from chained_packed [OF 2 3] 1 2 show ?thesis by blast
  qed
  then show ?thesis
    by (simp add: put_log_page_def emit_def Let_def)
qed

theorem put_log_page_terminator_witness:
  "second_session = final (run (good_env 0)
       [Start, Alloc 16 1, Commit, Stop, Start, Alloc 16 1, Commit]
       (init_logger ''/dev/shm'' 1024))
   \<and> log_page second_session = Some 1 \<and> log_file second_session = Some 0
   \<and> (\<exists>st'. put_log_page (good_env 0) second_session = Inr st' \<and> offset st' = 32
         \<and> terminator_stores (trace st') = [(1, 32), (0, 16)])
   \<and> page_place 1 (trace second_session) = Some (0, 0)
   \<and> file_page_records 0 0 (trace second_session) = [(16, 16, 1), (0, 16, 1)]
   \<and> chained (file_page_records 0 (poffset second_session) (trace second_session))
        (offset second_session)
   \<and> packed (file_page_records 0 (poffset second_session) (trace second_session))
        (offset second_session)"
proof -
  have d: "second_session = final (run (good_env 0)
       [Start, Alloc 16 1, Commit, Stop, Start, Alloc 16 1, Commit]
       (init_logger ''/dev/shm'' 1024))"
    by (rule second_session_def)
  have h: "log_page second_session = Some 1" "log_file second_session = Some 0"
    by (simp_all add: second_session_eq)
  have r: "offset second_session = 32" "offset second_session < PAGE_SIZE"
    "poffset second_session = 0"
    "terminator_stores (trace second_session) = [(0, 16)]"
    "file_page_records 0 0 (trace second_session) = [(16, 16, 1), (0, 16, 1)]"
    "length (file_page_records 0 (poffset second_session) (trace second_session)) < 2 ^ 52"
    by (simp_all add: second_session_eq PAGE_SIZE_eq)
  note t = put_log_page_terminator
    [where st = second_session and pg = 1 and f = 0 and E = "good_env 0"
      and ops = "[Start, Alloc 16 1, Commit, Stop, Start, Alloc 16 1, Commit]"
      and dir = "''/dev/shm''" and n = 1024 and pg' = 1 and f' = 0, folded d]
  from t h obtain st' where
    "put_log_page (good_env 0) second_session = Inr st'" "offset st' = offset second_session"
    "terminator_stores (trace st') =
       (if offset second_session < PAGE_SIZE then [(1, offset second_session)] else [])
         @ terminator_stores (trace second_session)"
    by blast
  then have 1: "\<exists>st'. put_log_page (good_env 0) second_session = Inr st' \<and> offset st' = 32
         \<and> terminator_stores (trace st') = [(1, 32), (0, 16)]"
    using r by simp
  from t h r(6) have 2:
    "page_place 1 (trace second_session) = Some (0, poffset second_session)"
    "chained (file_page_records 0 (poffset second_session) (trace second_session))
        (offset second_session)"
    "packed (file_page_records 0 (poffset second_session) (trace second_session))
        (offset second_session)"
    by blast+
  from d h 1 2 r(3,5) show ?thesis by simp
qed

end
